theory Spec2Isabelle
  imports Main "HOL-Library.AList" "HOL-Library.Multiset"
begin

section \<open>The team catcher world of gym\_ma\_toy (envs/coop/game.py)\<close>

text \<open>
  A shallow embedding of class \<open>World\<close>. Python integers are \<open>int\<close>. The NumPy grid is a
  list of rows; every subscript goes through \<open>norm_index\<close>, which wraps a negative index
  and fails out of range as NumPy and Python lists do. A method that mutates the object
  returns either the object after the call (\<open>Inr\<close>) or the exception raised together with
  the object as the exception left it (\<open>Inl\<close>): a Python method that raises keeps the
  mutations it has already made.
\<close>

subsection \<open>Enumerations and elements\<close>

text \<open>\<open>Actions\<close> is an \<open>IntEnum\<close> and \<open>_update_action\<close> receives a plain \<open>int\<close>.\<close>

abbreviation (input) NOOP :: int where "NOOP \<equiv> 0"
abbreviation (input) UP :: int where "UP \<equiv> 1"
abbreviation (input) DOWN :: int where "DOWN \<equiv> 2"
abbreviation (input) LEFT :: int where "LEFT \<equiv> 3"
abbreviation (input) RIGHT :: int where "RIGHT \<equiv> 4"

text \<open>\<open>MapElement\<close>: empty = 0, agent = 1, target = 2 (\<open>empty\<close> is taken by the empty set).\<close>

datatype MapElement = empty_el | agent | target

datatype error = KeyError | IndexError | ValueError

record Agent =
  id_elem :: int
  position :: "int \<times> int"

text \<open>A \<open>Target\<close> object holds nothing but its position.\<close>

type_synonym Target = "int \<times> int"

type_synonym ndarray = "MapElement list list"

text \<open>
  The dictionaries \<open>agents\<close> and \<open>agent_position\<close> are association lists in insertion
  order. \<open>agent_position\<close> is \<open>None\<close> until \<open>_update_position_state\<close> first sets it. The
  fields \<open>size\<close> and \<open>map\<close> are named \<open>size_w\<close> and \<open>map_w\<close>.
\<close>

record World =
  seed :: int
  size_w :: int
  nb_agents :: int
  nb_targets :: int
  targets_alive :: int
  map_w :: ndarray
  agents :: "(string \<times> Agent) list"
  targets :: "Target list"
  agent_position :: "(string \<times> (int \<times> int)) list option"

type_synonym result = "(error \<times> World) + World"

definition bind :: "result \<Rightarrow> (World \<Rightarrow> result) \<Rightarrow> result" where
  "bind r f = (case r of Inl e \<Rightarrow> Inl e | Inr w \<Rightarrow> f w)"

subsection \<open>Subscripts\<close>

definition norm_index :: "int \<Rightarrow> int \<Rightarrow> nat option" where
  "norm_index n i =
     (if 0 \<le> i \<and> i < n then Some (nat i)
      else if - n \<le> i \<and> i < 0 then Some (nat (n + i))
      else None)"

definition py_getitem :: "'a list \<Rightarrow> int \<Rightarrow> 'a option" where
  "py_getitem xs i =
     (case norm_index (int (length xs)) i of None \<Rightarrow> None | Some k \<Rightarrow> Some (xs ! k))"

definition getitem :: "ndarray \<Rightarrow> int \<times> int \<Rightarrow> MapElement option" where
  "getitem m p =
     (case norm_index (int (length m)) (fst p) of
        None \<Rightarrow> None
      | Some r \<Rightarrow>
          (case norm_index (int (length (m ! r))) (snd p) of
             None \<Rightarrow> None
           | Some c \<Rightarrow> Some (m ! r ! c)))"

definition setitem :: "ndarray \<Rightarrow> int \<times> int \<Rightarrow> MapElement \<Rightarrow> ndarray option" where
  "setitem m p v =
     (case norm_index (int (length m)) (fst p) of
        None \<Rightarrow> None
      | Some r \<Rightarrow>
          (case norm_index (int (length (m ! r))) (snd p) of
             None \<Rightarrow> None
           | Some c \<Rightarrow> Some (m[r := (m ! r)[c := v]])))"

text \<open>\<open>np.zeros((n, n))\<close>: a negative dimension raises \<open>ValueError\<close>.\<close>

definition zeros :: "int \<Rightarrow> ndarray option" where
  "zeros n = (if n < 0 then None else Some (replicate (nat n) (replicate (nat n) empty_el)))"

text \<open>\<open>np.arange(0, n)\<close>.\<close>

definition arange :: "int \<Rightarrow> int list" where
  "arange n = [0..n - 1]"

text \<open>\<open>str\<close> of an integer, for the f-string \<open>f"agent_{i+1}"\<close>.\<close>

definition digit :: "nat \<Rightarrow> char" where
  "digit d = ''0123456789'' ! d"

fun str_nat :: "nat \<Rightarrow> string" where
  "str_nat n = (if n < 10 then [digit n] else str_nat (n div 10) @ [digit (n mod 10)])"

declare str_nat.simps [simp del]

definition str :: "int \<Rightarrow> string" where
  "str i = (if i < 0 then CHR ''-'' # str_nat (nat (- i)) else str_nat (nat i))"

subsection \<open>\<open>World.__init__\<close> (lines 61-84)\<close>

definition World_init :: "int \<Rightarrow> int \<Rightarrow> int \<Rightarrow> int \<Rightarrow> error + World" where
  "World_init sz na nt sd =
     (case zeros sz of
        None \<Rightarrow> Inl ValueError
      | Some z \<Rightarrow>
          Inr \<lparr>seed = sd, size_w = sz, nb_agents = na, nb_targets = nt, targets_alive = nt,
               map_w = z, agents = [], targets = [], agent_position = None\<rparr>)"

subsection \<open>\<open>World._update_position_state\<close> (lines 141-144)\<close>

definition update_position_state :: "World \<Rightarrow> World" where
  "update_position_state w =
     w\<lparr>agent_position := Some (map (\<lambda>(k, v). (k, position v)) (agents w))\<rparr>"

subsection \<open>\<open>World.agent_capture\<close> (lines 199-232)\<close>

definition potential_neighborhood :: "int \<times> int \<Rightarrow> (int \<times> int) list" where
  "potential_neighborhood pixel =
     [(fst pixel + 1, snd pixel), (fst pixel - 1, snd pixel),
      (fst pixel, snd pixel + 1), (fst pixel, snd pixel - 1)]"

text \<open>The \<open>for neighbour in potential_neighborhood\<close> loop, with its counter.\<close>

fun count_neighbours :: "(int \<times> int) list \<Rightarrow> int \<Rightarrow> ndarray \<Rightarrow> int \<Rightarrow> int option" where
  "count_neighbours [] sz world_map n = Some n"
| "count_neighbours (neighbour # rest) sz world_map n =
     (if 0 \<le> fst neighbour \<and> fst neighbour < sz \<and> 0 \<le> snd neighbour \<and> snd neighbour < sz
      then (case getitem world_map neighbour of
              None \<Rightarrow> None
            | Some v \<Rightarrow> count_neighbours rest sz world_map (if v = agent then n + 1 else n))
      else count_neighbours rest sz world_map n)"

text \<open>\<open>None\<close> is the \<open>IndexError\<close> of a map smaller than \<open>size\<close>.\<close>

definition agent_capture :: "int \<times> int \<Rightarrow> int \<Rightarrow> ndarray \<Rightarrow> bool option" where
  "agent_capture pixel sz world_map =
     (case count_neighbours (potential_neighborhood pixel) sz world_map 0 of
        None \<Rightarrow> None
      | Some n_agent_neighbour \<Rightarrow> Some (n_agent_neighbour \<ge> 2))"

subsection \<open>\<open>World._update_map\<close> (lines 234-243)\<close>

text \<open>The pairs \<open>(i, j)\<close> in the order the two nested \<open>range(size)\<close> loops visit them.\<close>

definition pixels :: "int \<Rightarrow> (int \<times> int) list" where
  "pixels sz = concat (map (\<lambda>i. map (\<lambda>j. (i, j)) [0..sz - 1]) [0..sz - 1])"

text \<open>The loop body (lines 240-243) at one pixel.\<close>

definition capture_step :: "World \<Rightarrow> int \<Rightarrow> int \<times> int \<Rightarrow> result" where
  "capture_step w sz p =
     (case getitem (map_w w) p of
        None \<Rightarrow> Inl (IndexError, w)
      | Some v \<Rightarrow>
          if v = target then
            (case agent_capture p sz (map_w w) of
               None \<Rightarrow> Inl (IndexError, w)
             | Some captured \<Rightarrow>
                 if captured then
                   (case setitem (map_w w) p empty_el of
                      None \<Rightarrow> Inl (IndexError, w)
                    | Some m \<Rightarrow> Inr (w\<lparr>map_w := m, targets_alive := targets_alive w - 1\<rparr>))
                 else Inr w)
          else Inr w)"

fun scan :: "World \<Rightarrow> int \<Rightarrow> (int \<times> int) list \<Rightarrow> result" where
  "scan w sz [] = Inr w"
| "scan w sz (p # ps) =
     (case capture_step w sz p of Inl e \<Rightarrow> Inl e | Inr w' \<Rightarrow> scan w' sz ps)"

definition update_map :: "World \<Rightarrow> result" where
  "update_map w = scan w (size_w w) (pixels (size_w w))"

subsection \<open>\<open>World._update_action\<close> (lines 146-197)\<close>

text \<open>
  One guarded block of \<open>_update_action\<close>: \<open>bound\<close> is the boundary test, already
  evaluated, and \<open>dest\<close> the neighbouring cell. Python's \<open>and\<close> reads the map only when
  the boundary test holds.
\<close>

definition attempt :: "World \<Rightarrow> string \<Rightarrow> Agent \<Rightarrow> bool \<Rightarrow> int \<times> int \<Rightarrow> result" where
  "attempt w agent_id ag bound dest =
     (if \<not> bound then Inr w
      else
        (case getitem (map_w w) dest of
           None \<Rightarrow> Inl (IndexError, w)
         | Some v \<Rightarrow>
             if v \<noteq> empty_el then Inr w
             else
               (case setitem (map_w w) dest agent of
                  None \<Rightarrow> Inl (IndexError, w)
                | Some m1 \<Rightarrow>
                    (case setitem m1 (position ag) empty_el of
                       None \<Rightarrow> Inl (IndexError, w\<lparr>map_w := m1\<rparr>)
                     | Some m2 \<Rightarrow>
                         Inr (w\<lparr>map_w := m2,
                                agents := AList.update agent_id (ag\<lparr>position := dest\<rparr>) (agents w)\<rparr>)))))"

text \<open>
  The four \<open>if\<close> statements compare the same \<open>action\<close> with four different constants,
  so at most one block runs; they are written here as one chain.
\<close>

definition update_action :: "World \<Rightarrow> int \<Rightarrow> string \<Rightarrow> result" where
  "update_action w action agent_id =
     (case map_of (agents w) agent_id of
        None \<Rightarrow> Inl (KeyError, w)
      | Some ag \<Rightarrow>
          (let r = fst (position ag); c = snd (position ag) in
           if action = UP then attempt w agent_id ag (r - 1 > 0) (r - 1, c)
           else if action = DOWN then attempt w agent_id ag (r + 1 < size_w w) (r + 1, c)
           else if action = LEFT then attempt w agent_id ag (c - 1 > 0) (r, c - 1)
           else if action = RIGHT then attempt w agent_id ag (c + 1 < size_w w) (r, c + 1)
           else Inr w))"

subsection \<open>\<open>World.update\<close> (lines 245-257)\<close>

text \<open>The joint action is a dictionary, read in its iteration order.\<close>

fun moves :: "World \<Rightarrow> (string \<times> int) list \<Rightarrow> result" where
  "moves w [] = Inr w"
| "moves w ((agent_id, action) # rest) =
     (case update_action w action agent_id of Inl e \<Rightarrow> Inl e | Inr w' \<Rightarrow> moves w' rest)"

definition update :: "World \<Rightarrow> (string \<times> int) list \<Rightarrow> result" where
  "update w joint_action =
     bind (moves w joint_action) (\<lambda>w1.
     bind (update_map w1) (\<lambda>w2.
     Inr (update_position_state w2)))"

subsection \<open>\<open>World.reset\<close> (lines 98-135)\<close>

definition all_positions :: "int \<Rightarrow> (int \<times> int) list" where
  "all_positions sz = concat (map (\<lambda>j. map (\<lambda>i. (i, j)) [1..sz - 2]) [1..sz - 2])"

text \<open>\<open>all_positions[random_idx[i]]\<close>; \<open>None\<close> is an \<open>IndexError\<close>.\<close>

definition pick :: "(int \<times> int) list \<Rightarrow> int list \<Rightarrow> int \<Rightarrow> (int \<times> int) option" where
  "pick all_pos random_idx i =
     (case py_getitem random_idx i of None \<Rightarrow> None | Some k \<Rightarrow> py_getitem all_pos k)"

text \<open>A list comprehension whose element expression may raise.\<close>

fun collect :: "('a \<Rightarrow> 'b option) \<Rightarrow> 'a list \<Rightarrow> 'b list option" where
  "collect f [] = Some []"
| "collect f (x # xs) =
     (case f x of
        None \<Rightarrow> None
      | Some y \<Rightarrow> (case collect f xs of None \<Rightarrow> None | Some ys \<Rightarrow> Some (y # ys)))"

text \<open>The loops \<open>for pos in ...: self.map[pos[0], pos[1]] = v\<close> (lines 129-132).\<close>

fun mark :: "World \<Rightarrow> (int \<times> int) list \<Rightarrow> MapElement \<Rightarrow> result" where
  "mark w [] v = Inr w"
| "mark w (pos # ps) v =
     (case setitem (map_w w) pos v of
        None \<Rightarrow> Inl (IndexError, w)
      | Some m \<Rightarrow> mark (w\<lparr>map_w := m\<rparr>) ps v)"

text \<open>
  The dictionary comprehension of lines 122-125. Its keys \<open>agent_1\<close>, \<open>agent_2\<close>, ...
  differ, so the dictionary is the list of its items.
\<close>

definition make_agents :: "(int \<times> int) list \<Rightarrow> (string \<times> Agent) list" where
  "make_agents agents_pos =
     map (\<lambda>(i, pos). (''agent_'' @ str (int i + 1),
                       \<lparr>id_elem = int i + 1, position = agents_pos ! i\<rparr>))
         (enumerate 0 agents_pos)"

text \<open>
  Lines 101-132, up to the capture scan. \<open>np.random.shuffle\<close> draws from NumPy's global
  generator, which nothing in this file seeds; its effect on the index array at this call
  is the parameter \<open>shuffle\<close>.
\<close>

definition place :: "World \<Rightarrow> (int list \<Rightarrow> int list) \<Rightarrow> result" where
  "place w shuffle =
     (let w1 = w\<lparr>targets_alive := nb_targets w\<rparr> in
      case zeros (size_w w) of
        None \<Rightarrow> Inl (ValueError, w1)
      | Some z \<Rightarrow>
          (let w2 = w1\<lparr>map_w := z\<rparr>;
               all_pos = all_positions (size_w w);
               random_idx = shuffle (arange ((size_w w - 2) * (size_w w - 2)))
           in case collect (pick all_pos random_idx) [0..nb_agents w - 1] of
                None \<Rightarrow> Inl (IndexError, w2)
              | Some agents_pos \<Rightarrow>
                  (case collect (pick all_pos random_idx)
                          [nb_agents w..nb_agents w + nb_targets w - 1] of
                     None \<Rightarrow> Inl (IndexError, w2)
                   | Some targets_pos \<Rightarrow>
                       (let w3 = w2\<lparr>agents := make_agents agents_pos,
                                    targets := targets_pos\<rparr>
                        in bind (mark w3 agents_pos agent) (\<lambda>w4. mark w4 targets_pos target)))))"

definition reset :: "World \<Rightarrow> (int list \<Rightarrow> int list) \<Rightarrow> result" where
  "reset w shuffle =
     bind (place w shuffle) (\<lambda>w5.
     bind (update_map w5) (\<lambda>w6.
     Inr (update_position_state w6)))"

section \<open>Notions used to state the properties\<close>

text \<open>A cell of the \<open>size \<times> size\<close> grid.\<close>

definition in_grid :: "int \<Rightarrow> int \<times> int \<Rightarrow> bool" where
  "in_grid sz p \<longleftrightarrow> 0 \<le> fst p \<and> fst p < sz \<and> 0 \<le> snd p \<and> snd p < sz"

text \<open>The map has shape \<open>(size, size)\<close>, as \<open>np.zeros((size, size))\<close> makes it.\<close>

definition wf_map :: "int \<Rightarrow> ndarray \<Rightarrow> bool" where
  "wf_map sz m \<longleftrightarrow> int (length m) = sz \<and> list_all (\<lambda>row. int (length row) = sz) m"

text \<open>The array after a write at a cell of the grid.\<close>

definition put :: "ndarray \<Rightarrow> int \<times> int \<Rightarrow> MapElement \<Rightarrow> ndarray" where
  "put m p v = m[nat (fst p) := (m ! nat (fst p))[nat (snd p) := v]]"

text \<open>
  The number of cells among the four orthogonal neighbours (down, up, right, left) of
  \<open>p\<close> that lie in the grid and hold an agent. No diagonal cell is among them.
\<close>

definition orth_agents :: "int \<Rightarrow> ndarray \<Rightarrow> int \<times> int \<Rightarrow> nat" where
  "orth_agents sz m p =
     card {q \<in> {(fst p + 1, snd p), (fst p - 1, snd p), (fst p, snd p + 1), (fst p, snd p - 1)}.
             in_grid sz q \<and> getitem m q = Some agent}"

text \<open>A target with at least two such neighbours.\<close>

definition captured :: "int \<Rightarrow> ndarray \<Rightarrow> int \<times> int \<Rightarrow> bool" where
  "captured sz m p \<longleftrightarrow> getitem m p = Some target \<and> 2 \<le> orth_agents sz m p"

text \<open>Every agent of the dictionary stands on a cell of the grid.\<close>

definition agents_in_grid :: "int \<Rightarrow> (string \<times> Agent) list \<Rightarrow> bool" where
  "agents_in_grid sz al \<longleftrightarrow> list_all (\<lambda>ka. in_grid sz (position (snd ka))) al"

definition wf_world :: "World \<Rightarrow> bool" where
  "wf_world w \<longleftrightarrow> wf_map (size_w w) (map_w w) \<and> agents_in_grid (size_w w) (agents w)"

text \<open>
  The specification's boundary check of each direction (UP requires \<open>row - 1 > 0\<close>, DOWN
  \<open>row + 1 < size\<close>, LEFT \<open>col - 1 > 0\<close>, RIGHT \<open>col + 1 < size\<close>) and the cell the
  direction leads to.
\<close>

definition boundary_check :: "int \<Rightarrow> int \<Rightarrow> int \<times> int \<Rightarrow> bool" where
  "boundary_check action sz p =
     (if action = UP then fst p - 1 > 0
      else if action = DOWN then fst p + 1 < sz
      else if action = LEFT then snd p - 1 > 0
      else if action = RIGHT then snd p + 1 < sz
      else False)"

definition destination :: "int \<Rightarrow> int \<times> int \<Rightarrow> int \<times> int" where
  "destination action p =
     (if action = UP then (fst p - 1, snd p)
      else if action = DOWN then (fst p + 1, snd p)
      else if action = LEFT then (fst p, snd p - 1)
      else if action = RIGHT then (fst p, snd p + 1)
      else p)"

text \<open>
  A successful move: the destination is marked, the origin cleared, the stored position
  updated.
\<close>

definition moved :: "World \<Rightarrow> string \<Rightarrow> Agent \<Rightarrow> int \<times> int \<Rightarrow> World" where
  "moved w agent_id ag dest =
     w\<lparr>map_w := put (put (map_w w) dest agent) (position ag) empty_el,
       agents := AList.update agent_id (ag\<lparr>position := dest\<rparr>) (agents w)\<rparr>"

text \<open>The interior region: the cells off the outer border ring.\<close>

definition interior :: "int \<Rightarrow> int \<times> int \<Rightarrow> bool" where
  "interior sz p \<longleftrightarrow> 1 \<le> fst p \<and> fst p \<le> sz - 2 \<and> 1 \<le> snd p \<and> snd p \<le> sz - 2"

text \<open>The number of cells of the grid that hold the marker \<open>v\<close>.\<close>

definition count_cells :: "int \<Rightarrow> ndarray \<Rightarrow> MapElement \<Rightarrow> nat" where
  "count_cells sz m v = length (filter (\<lambda>p. getitem m p = Some v) (pixels sz))"

text \<open>
  The invariant behind the bounds on \<open>targets_alive\<close>: the world is well formed and the
  counter lies between the number of target cells and \<open>nb_targets\<close>.
\<close>

definition alive_inv :: "World \<Rightarrow> bool" where
  "alive_inv w \<longleftrightarrow>
     wf_world w \<and> int (count_cells (size_w w) (map_w w) target) \<le> targets_alive w
     \<and> targets_alive w \<le> nb_targets w"

text \<open>
  The states of an episode: a successful \<open>reset\<close> of a world with a non-negative number of
  targets, followed by any calls of \<open>update\<close>, including calls that raise.
\<close>

inductive reachable :: "World \<Rightarrow> bool" where
  reach_reset: "0 \<le> nb_targets w0 \<Longrightarrow> reset w0 shuffle = Inr w \<Longrightarrow> reachable w"
| reach_update: "reachable w \<Longrightarrow> update w joint_action = Inr w' \<Longrightarrow> reachable w'"
| reach_raise: "reachable w \<Longrightarrow> update w joint_action = Inl (e, w') \<Longrightarrow> reachable w'"

text \<open>A result with the field \<open>seed\<close> of its world set to \<open>s\<close>.\<close>

definition with_seed :: "int \<Rightarrow> result \<Rightarrow> result" where
  "with_seed s r = (case r of Inl (e, w) \<Rightarrow> Inl (e, w\<lparr>seed := s\<rparr>) | Inr w \<Rightarrow> Inr (w\<lparr>seed := s\<rparr>))"

subsection \<open>Concrete worlds and shuffles\<close>

text \<open>
  \<open>w33\<close> is the world of size 3 with one agent on its only interior cell; \<open>w55\<close> has size
  5, a target at \<open>(2, 1)\<close> between the agents at \<open>(1, 1)\<close> and \<open>(3, 1)\<close>, and a target at
  \<open>(2, 3)\<close> with the single agent neighbour \<open>(1, 3)\<close>.
\<close>

definition w33 :: World where
  "w33 = \<lparr>seed = 0, size_w = 3, nb_agents = 1, nb_targets = 0, targets_alive = 0,
          map_w = [[empty_el, empty_el, empty_el], [empty_el, agent, empty_el],
                   [empty_el, empty_el, empty_el]],
          agents = [(''agent_1'', \<lparr>id_elem = 1, position = (1, 1)\<rparr>)], targets = [],
          agent_position = Some [(''agent_1'', (1, 1))]\<rparr>"

definition w55 :: World where
  "w55 = \<lparr>seed = 0, size_w = 5, nb_agents = 3, nb_targets = 2, targets_alive = 2,
          map_w = [[empty_el, empty_el, empty_el, empty_el, empty_el],
                   [empty_el, agent, empty_el, agent, empty_el],
                   [empty_el, target, empty_el, target, empty_el],
                   [empty_el, agent, empty_el, empty_el, empty_el],
                   [empty_el, empty_el, empty_el, empty_el, empty_el]],
          agents = [(''agent_1'', \<lparr>id_elem = 1, position = (1, 1)\<rparr>),
                    (''agent_2'', \<lparr>id_elem = 2, position = (3, 1)\<rparr>),
                    (''agent_3'', \<lparr>id_elem = 3, position = (1, 3)\<rparr>)],
          targets = [(2, 1), (2, 3)],
          agent_position = Some [(''agent_1'', (1, 1)), (''agent_2'', (3, 1)),
                                 (''agent_3'', (1, 3))]\<rparr>"

text \<open>
  The entries of a joint action before the first name that is no key of \<open>agents\<close>.
\<close>

definition known_prefix :: "(string \<times> Agent) list \<Rightarrow> (string \<times> int) list \<Rightarrow> (string \<times> int) list" where
  "known_prefix al joint_action = takeWhile (\<lambda>ka. fst ka \<in> set (map fst al)) joint_action"

text \<open>
  \<open>w3_init\<close> is \<open>World(3, 1, 0, 0)\<close> as the constructor leaves it; \<open>w33_down\<close> is \<open>w33\<close>
  once its agent has gone down, before the position state is refreshed.
\<close>

definition w3_init :: World where
  "w3_init = \<lparr>seed = 0, size_w = 3, nb_agents = 1, nb_targets = 0, targets_alive = 0,
          map_w = [[empty_el, empty_el, empty_el], [empty_el, empty_el, empty_el],
                   [empty_el, empty_el, empty_el]],
          agents = [], targets = [], agent_position = None\<rparr>"

definition w33_down :: World where
  "w33_down = \<lparr>seed = 0, size_w = 3, nb_agents = 1, nb_targets = 0, targets_alive = 0,
          map_w = [[empty_el, empty_el, empty_el], [empty_el, empty_el, empty_el],
                   [empty_el, agent, empty_el]],
          agents = [(''agent_1'', \<lparr>id_elem = 1, position = (2, 1)\<rparr>)], targets = [],
          agent_position = Some [(''agent_1'', (1, 1))]\<rparr>"

text \<open>
  Two outcomes of the shuffle, both permutations: \<open>swap12\<close> exchanges the entries at indices
  1 and 2, \<open>lift5\<close> moves the entry at index 5 to index 1.
\<close>

definition swap12 :: "int list \<Rightarrow> int list" where
  "swap12 xs = (case xs of a # b # c # rest \<Rightarrow> a # c # b # rest | _ \<Rightarrow> xs)"

definition lift5 :: "int list \<Rightarrow> int list" where
  "lift5 xs = (case xs of a # b # c # d # e # f # rest \<Rightarrow> a # f # b # c # d # e # rest | _ \<Rightarrow> xs)"

text \<open>
  \<open>w5_init\<close> is \<open>World(5, 2, 1, 0)\<close> as the constructor leaves it. \<open>w5_ready\<close> is its state
  after a \<open>reset\<close> whose shuffle is \<open>lift5\<close>: agents at \<open>(1, 1)\<close> and \<open>(3, 2)\<close>, the target at
  \<open>(2, 1)\<close>. With the shuffle \<open>swap12\<close> the placement is \<open>w5_placed\<close> (agents at \<open>(1, 1)\<close> and
  \<open>(3, 1)\<close> around the target at \<open>(2, 1)\<close>) and the state after \<open>reset\<close> is \<open>w5_pincer\<close>, which
  is also the state of \<open>w5_ready\<close> after agent 2 has moved left.
\<close>

definition w5_init :: World where
  "w5_init = \<lparr>seed = 0, size_w = 5, nb_agents = 2, nb_targets = 1, targets_alive = 1,
          map_w = [[empty_el, empty_el, empty_el, empty_el, empty_el],
                   [empty_el, empty_el, empty_el, empty_el, empty_el],
                   [empty_el, empty_el, empty_el, empty_el, empty_el],
                   [empty_el, empty_el, empty_el, empty_el, empty_el],
                   [empty_el, empty_el, empty_el, empty_el, empty_el]],
          agents = [], targets = [], agent_position = None\<rparr>"

definition w5_ready :: World where
  "w5_ready = \<lparr>seed = 0, size_w = 5, nb_agents = 2, nb_targets = 1, targets_alive = 1,
          map_w = [[empty_el, empty_el, empty_el, empty_el, empty_el],
                   [empty_el, agent, empty_el, empty_el, empty_el],
                   [empty_el, target, empty_el, empty_el, empty_el],
                   [empty_el, empty_el, agent, empty_el, empty_el],
                   [empty_el, empty_el, empty_el, empty_el, empty_el]],
          agents = [(''agent_1'', \<lparr>id_elem = 1, position = (1, 1)\<rparr>),
                    (''agent_2'', \<lparr>id_elem = 2, position = (3, 2)\<rparr>)],
          targets = [(2, 1)],
          agent_position = Some [(''agent_1'', (1, 1)), (''agent_2'', (3, 2))]\<rparr>"

definition w5_placed :: World where
  "w5_placed = \<lparr>seed = 0, size_w = 5, nb_agents = 2, nb_targets = 1, targets_alive = 1,
          map_w = [[empty_el, empty_el, empty_el, empty_el, empty_el],
                   [empty_el, agent, empty_el, empty_el, empty_el],
                   [empty_el, target, empty_el, empty_el, empty_el],
                   [empty_el, agent, empty_el, empty_el, empty_el],
                   [empty_el, empty_el, empty_el, empty_el, empty_el]],
          agents = [(''agent_1'', \<lparr>id_elem = 1, position = (1, 1)\<rparr>),
                    (''agent_2'', \<lparr>id_elem = 2, position = (3, 1)\<rparr>)],
          targets = [(2, 1)], agent_position = None\<rparr>"

definition w5_pincer :: World where
  "w5_pincer = \<lparr>seed = 0, size_w = 5, nb_agents = 2, nb_targets = 1, targets_alive = 0,
          map_w = [[empty_el, empty_el, empty_el, empty_el, empty_el],
                   [empty_el, agent, empty_el, empty_el, empty_el],
                   [empty_el, empty_el, empty_el, empty_el, empty_el],
                   [empty_el, agent, empty_el, empty_el, empty_el],
                   [empty_el, empty_el, empty_el, empty_el, empty_el]],
          agents = [(''agent_1'', \<lparr>id_elem = 1, position = (1, 1)\<rparr>),
                    (''agent_2'', \<lparr>id_elem = 2, position = (3, 1)\<rparr>)],
          targets = [(2, 1)],
          agent_position = Some [(''agent_1'', (1, 1)), (''agent_2'', (3, 1))]\<rparr>"

text \<open>\<open>w1_init\<close> is \<open>World(1, 1, 0, 0)\<close> as the constructor leaves it.\<close>

definition w1_init :: World where
  "w1_init = \<lparr>seed = 0, size_w = 1, nb_agents = 1, nb_targets = 0, targets_alive = 0,
          map_w = [[empty_el]], agents = [], targets = [], agent_position = None\<rparr>"

section \<open>The grid\<close>

lemma norm_index_in: "0 \<le> i \<Longrightarrow> i < n \<Longrightarrow> norm_index n i = Some (nat i)"
  by (simp add: norm_index_def)

lemma wf_map_row: "wf_map sz m \<Longrightarrow> 0 \<le> i \<Longrightarrow> i < sz \<Longrightarrow> int (length (m ! nat i)) = sz"
  by (auto simp: wf_map_def list_all_length)

lemma getitem_in:
  "wf_map sz m \<Longrightarrow> in_grid sz p \<Longrightarrow> getitem m p = Some (m ! nat (fst p) ! nat (snd p))"
  using wf_map_row [of sz m "fst p"]
  by (simp add: getitem_def in_grid_def norm_index_in wf_map_def)

lemma setitem_in: "wf_map sz m \<Longrightarrow> in_grid sz p \<Longrightarrow> setitem m p v = Some (put m p v)"
  using wf_map_row [of sz m "fst p"]
  by (simp add: setitem_def put_def in_grid_def norm_index_in wf_map_def)

lemma wf_put: "wf_map sz m \<Longrightarrow> wf_map sz (put m p v)"
proof (cases "nat (fst p) < length m")
  case True
  assume "wf_map sz m"
  with True show ?thesis
    by (auto simp: wf_map_def put_def list_all_length nth_list_update)
next
  case False
  assume "wf_map sz m"
  with False show ?thesis
    by (simp add: put_def list_update_beyond not_less)
qed

lemma getitem_put:
  assumes "wf_map sz m" "in_grid sz p" "in_grid sz q"
  shows "getitem (put m p v) q = (if q = p then Some v else getitem m q)"
proof -
  have r: "nat (fst p) < length m" "nat (fst q) < length m"
    using assms by (auto simp: wf_map_def in_grid_def)
  have c: "nat (snd p) < length (m ! nat (fst p))"
    using assms wf_map_row [of sz m "fst p"] by (auto simp: in_grid_def)
  have e: "q = p \<longleftrightarrow> nat (fst q) = nat (fst p) \<and> nat (snd q) = nat (snd p)"
    using assms by (auto simp: in_grid_def prod_eq_iff)
  have "getitem (put m p v) q = Some (put m p v ! nat (fst q) ! nat (snd q))"
    by (rule getitem_in [OF wf_put [OF assms(1)] assms(3)])
  also have "\<dots> = (if q = p then Some v else getitem m q)"
    using r c e by (simp add: getitem_in [OF assms(1) assms(3)] put_def nth_list_update)
  finally show ?thesis .
qed

lemma getitem_Some: "wf_map sz m \<Longrightarrow> in_grid sz p \<Longrightarrow> \<exists>v. getitem m p = Some v"
  by (simp add: getitem_in)

section \<open>The capture scan\<close>

lemma pixels_product: "pixels sz = List.product [0..sz - 1] [0..sz - 1]"
  by (simp add: pixels_def product_concat_map)

lemma distinct_pixels: "distinct (pixels sz)"
  by (simp add: pixels_product distinct_product)

lemma set_pixels: "set (pixels sz) = {p. in_grid sz p}"
  by (auto simp: pixels_product in_grid_def)

lemma count_neighbours_Cons:
  "count_neighbours (q # qs) sz m n =
     (if in_grid sz q
      then (case getitem m q of
              None \<Rightarrow> None
            | Some v \<Rightarrow> count_neighbours qs sz m (if v = agent then n + 1 else n))
      else count_neighbours qs sz m n)"
  by (simp add: in_grid_def)

lemma count_neighbours_filter:
  "wf_map sz m \<Longrightarrow>
   count_neighbours qs sz m n =
     Some (n + int (length (filter (\<lambda>q. in_grid sz q \<and> getitem m q = Some agent) qs)))"
proof (induction qs arbitrary: n)
  case Nil
  then show ?case by simp
next
  case (Cons q qs)
  show ?case
  proof (cases "in_grid sz q")
    case True
    then obtain v where v: "getitem m q = Some v"
      using getitem_Some [OF Cons.prems] by blast
    show ?thesis
      using True v Cons.IH [OF Cons.prems]
      by (simp add: count_neighbours_Cons del: count_neighbours.simps)
  next
    case False
    then show ?thesis
      using Cons.IH [OF Cons.prems]
      by (simp add: count_neighbours_Cons del: count_neighbours.simps)
  qed
qed

lemma distinct_neighborhood: "distinct (potential_neighborhood p)"
  by (simp add: potential_neighborhood_def)

lemma orth_agents_filter:
  "orth_agents sz m p =
     length (filter (\<lambda>q. in_grid sz q \<and> getitem m q = Some agent) (potential_neighborhood p))"
proof -
  have "{q \<in> {(fst p + 1, snd p), (fst p - 1, snd p), (fst p, snd p + 1), (fst p, snd p - 1)}.
           in_grid sz q \<and> getitem m q = Some agent}
        = {q. in_grid sz q \<and> getitem m q = Some agent} \<inter> set (potential_neighborhood p)"
    by (auto simp: potential_neighborhood_def)
  then show ?thesis
    by (simp only: orth_agents_def distinct_length_filter [OF distinct_neighborhood])
qed

lemma agent_capture_wf:
  "wf_map sz m \<Longrightarrow> agent_capture p sz m = Some (2 \<le> orth_agents sz m p)"
  by (simp add: agent_capture_def count_neighbours_filter orth_agents_filter)

lemma capture_step_wf:
  assumes "wf_map sz (map_w w)" "in_grid sz p"
  shows "capture_step w sz p =
           Inr (if captured sz (map_w w) p
                then w\<lparr>map_w := put (map_w w) p empty_el, targets_alive := targets_alive w - 1\<rparr>
                else w)"
proof -
  obtain v where v: "getitem (map_w w) p = Some v"
    using getitem_Some [OF assms] by blast
  show ?thesis
    using v by (simp add: capture_step_def captured_def agent_capture_wf [OF assms(1)]
        setitem_in [OF assms])
qed

lemma orth_agents_cong:
  assumes "\<And>q. in_grid sz q \<Longrightarrow> getitem m' q = Some agent \<longleftrightarrow> getitem m q = Some agent"
  shows "orth_agents sz m' p = orth_agents sz m p"
proof -
  have "(\<lambda>q. in_grid sz q \<and> getitem m' q = Some agent) = (\<lambda>q. in_grid sz q \<and> getitem m q = Some agent)"
    using assms by auto
  then show ?thesis by (simp add: orth_agents_filter)
qed

lemma captured_put:
  assumes wf: "wf_map sz m" and p: "in_grid sz p" and t: "getitem m p = Some target"
    and q: "in_grid sz q" "q \<noteq> p"
  shows "captured sz (put m p empty_el) q \<longleftrightarrow> captured sz m q"
proof -
  have "orth_agents sz (put m p empty_el) q = orth_agents sz m q"
    by (rule orth_agents_cong) (use t in \<open>auto simp: getitem_put [OF wf p]\<close>)
  then show ?thesis
    using q by (simp add: captured_def getitem_put [OF wf p])
qed

lemma scan_wf:
  assumes "wf_map sz (map_w w)" "\<forall>p \<in> set ps. in_grid sz p" "distinct ps"
  shows "\<exists>m'. scan w sz ps =
                Inr (w\<lparr>map_w := m',
                       targets_alive :=
                         targets_alive w - int (length (filter (captured sz (map_w w)) ps))\<rparr>)
             \<and> wf_map sz m'
             \<and> (\<forall>q. in_grid sz q \<longrightarrow>
                    getitem m' q = (if q \<in> set ps \<and> captured sz (map_w w) q
                                    then Some empty_el else getitem (map_w w) q))"
  using assms
proof (induction ps arbitrary: w)
  case Nil
  then show ?case by (intro exI [of _ "map_w w"]) simp
next
  case (Cons p ps)
  let ?m = "map_w w"
  have p: "in_grid sz p" and ps: "\<forall>q \<in> set ps. in_grid sz q"
    and np: "p \<notin> set ps" and d: "distinct ps"
    using Cons.prems by auto
  have wf: "wf_map sz ?m" by (rule Cons.prems(1))
  show ?case
  proof (cases "captured sz ?m p")
    case False
    from Cons.IH [OF wf ps d] obtain m' where
      m': "scan w sz ps = Inr (w\<lparr>map_w := m',
             targets_alive := targets_alive w - int (length (filter (captured sz ?m) ps))\<rparr>)"
        "wf_map sz m'"
        "\<forall>q. in_grid sz q \<longrightarrow> getitem m' q =
           (if q \<in> set ps \<and> captured sz ?m q then Some empty_el else getitem ?m q)"
      by blast
    show ?thesis
      using False m' by (intro exI [of _ m']) (auto simp: capture_step_wf [OF wf p])
  next
    case True
    let ?w1 = "w\<lparr>map_w := put ?m p empty_el, targets_alive := targets_alive w - 1\<rparr>"
    have t: "getitem ?m p = Some target" using True by (simp add: captured_def)
    have wf1: "wf_map sz (map_w ?w1)" using wf by (simp add: wf_put)
    have same: "\<And>q. q \<in> set ps \<Longrightarrow> captured sz (put ?m p empty_el) q \<longleftrightarrow> captured sz ?m q"
      using captured_put [OF wf p t] ps np by blast
    have filt: "filter (captured sz (put ?m p empty_el)) ps = filter (captured sz ?m) ps"
      by (rule filter_cong [OF refl]) (rule same)
    from Cons.IH [OF wf1 ps d] obtain m' where
      m': "scan ?w1 sz ps = Inr (?w1\<lparr>map_w := m',
             targets_alive := targets_alive ?w1 - int (length (filter (captured sz (map_w ?w1)) ps))\<rparr>)"
        "wf_map sz m'"
        "\<forall>q. in_grid sz q \<longrightarrow> getitem m' q =
           (if q \<in> set ps \<and> captured sz (map_w ?w1) q then Some empty_el else getitem (map_w ?w1) q)"
      by blast
    have view: "\<forall>q. in_grid sz q \<longrightarrow> getitem m' q =
           (if q \<in> set (p # ps) \<and> captured sz ?m q then Some empty_el else getitem ?m q)"
    proof (intro allI impI)
      fix q assume q: "in_grid sz q"
      show "getitem m' q =
           (if q \<in> set (p # ps) \<and> captured sz ?m q then Some empty_el else getitem ?m q)"
      proof (cases "q = p")
        case True
        then show ?thesis
          using m'(3) [rule_format, OF q] np \<open>captured sz ?m p\<close>
          by (simp add: getitem_put [OF wf p p])
      next
        case False
        then show ?thesis
          using m'(3) [rule_format, OF q] same [of q] by (auto simp: getitem_put [OF wf p q])
      qed
    qed
    show ?thesis
      using True m'(1,2) view filt
      by (intro exI [of _ m']) (simp add: capture_step_wf [OF wf p])
  qed
qed

lemma scan_noop:
  assumes "wf_map sz (map_w w)" "\<forall>p \<in> set ps. in_grid sz p \<and> \<not> captured sz (map_w w) p"
  shows "scan w sz ps = Inr w"
  using assms by (induction ps) (auto simp: capture_step_wf)

lemma update_map_effect:
  assumes "wf_map (size_w w) (map_w w)"
  shows "\<exists>m'. update_map w =
                Inr (w\<lparr>map_w := m',
                       targets_alive := targets_alive w -
                         int (length (filter (captured (size_w w) (map_w w)) (pixels (size_w w))))\<rparr>)
             \<and> wf_map (size_w w) m'
             \<and> (\<forall>q. in_grid (size_w w) q \<longrightarrow>
                    getitem m' q = (if captured (size_w w) (map_w w) q
                                    then Some empty_el else getitem (map_w w) q))"
proof -
  have ps: "\<forall>p \<in> set (pixels (size_w w)). in_grid (size_w w) p"
    by (simp add: set_pixels)
  from scan_wf [OF assms ps distinct_pixels] show ?thesis
    by (simp add: update_map_def set_pixels)
qed

section \<open>Moves\<close>

lemma agents_in_grid_lookup:
  "agents_in_grid sz al \<Longrightarrow> map_of al k = Some ag \<Longrightarrow> in_grid sz (position ag)"
proof -
  assume a: "agents_in_grid sz al" and "map_of al k = Some ag"
  then have "(k, ag) \<in> set al" by (simp add: map_of_SomeD)
  with a show ?thesis by (auto simp: agents_in_grid_def list_all_iff)
qed

lemma agents_in_grid_update:
  "agents_in_grid sz al \<Longrightarrow> in_grid sz (position ag) \<Longrightarrow>
   agents_in_grid sz (AList.update k ag al)"
  by (induction al) (auto simp: agents_in_grid_def)

lemma attempt_wf:
  assumes wf: "wf_map (size_w w) (map_w w)" and pos: "in_grid (size_w w) (position ag)"
    and dest: "bound \<Longrightarrow> in_grid (size_w w) dest"
  shows "attempt w agent_id ag bound dest =
           Inr (if bound \<and> getitem (map_w w) dest = Some empty_el
                then moved w agent_id ag dest else w)"
proof (cases bound)
  case False
  then show ?thesis by (simp add: attempt_def)
next
  case True
  note d = dest [OF True]
  obtain v where v: "getitem (map_w w) dest = Some v"
    using getitem_Some [OF wf d] by blast
  show ?thesis
    using True v
    by (simp add: attempt_def moved_def setitem_in [OF wf d]
        setitem_in [OF wf_put [OF wf] pos])
qed

lemma update_action_wf:
  assumes wf: "wf_map (size_w w) (map_w w)" and ag: "map_of (agents w) agent_id = Some ag"
    and pos: "in_grid (size_w w) (position ag)"
  shows "update_action w action agent_id =
           Inr (if boundary_check action (size_w w) (position ag)
                   \<and> getitem (map_w w) (destination action (position ag)) = Some empty_el
                then moved w agent_id ag (destination action (position ag)) else w)"
proof -
  have up: "fst (position ag) - 1 > 0 \<Longrightarrow> in_grid (size_w w) (fst (position ag) - 1, snd (position ag))"
    and down: "fst (position ag) + 1 < size_w w \<Longrightarrow> in_grid (size_w w) (fst (position ag) + 1, snd (position ag))"
    and left: "snd (position ag) - 1 > 0 \<Longrightarrow> in_grid (size_w w) (fst (position ag), snd (position ag) - 1)"
    and right: "snd (position ag) + 1 < size_w w \<Longrightarrow> in_grid (size_w w) (fst (position ag), snd (position ag) + 1)"
    using pos by (auto simp: in_grid_def)
  show ?thesis
    using ag
    by (simp add: update_action_def boundary_check_def destination_def Let_def
        attempt_wf [OF wf pos up] attempt_wf [OF wf pos down]
        attempt_wf [OF wf pos left] attempt_wf [OF wf pos right])
qed

lemma boundary_check_dest:
  "in_grid sz p \<Longrightarrow> boundary_check action sz p \<Longrightarrow>
   in_grid sz (destination action p) \<and> destination action p \<noteq> p"
  by (auto simp: boundary_check_def destination_def in_grid_def prod_eq_iff split: if_splits)

lemma wf_world_moved:
  assumes "wf_world w" "in_grid (size_w w) dest"
  shows "wf_world (moved w agent_id ag dest)"
  using assms by (simp add: wf_world_def moved_def wf_put agents_in_grid_update)

lemma update_action_unknown:
  "map_of (agents w) agent_id = None \<Longrightarrow> update_action w action agent_id = Inl (KeyError, w)"
  by (simp add: update_action_def)

section \<open>Properties of the capture scan\<close>

lemma captured_count:
  "length (filter (captured sz m) (pixels sz)) =
     card {p. in_grid sz p \<and> getitem m p = Some target \<and> 2 \<le> orth_agents sz m p}"
proof -
  have "{p. captured sz m p} \<inter> set (pixels sz) =
        {p. in_grid sz p \<and> getitem m p = Some target \<and> 2 \<le> orth_agents sz m p}"
    by (auto simp: set_pixels captured_def)
  then show ?thesis
    by (simp add: distinct_length_filter [OF distinct_pixels])
qed

text \<open>
  C1: on a grid of shape \<open>(size, size)\<close> the capture scan returns; every target with at
  least two orthogonal neighbours that are in the grid and hold an agent becomes empty, and
  \<open>targets_alive\<close> drops by one for each of them; every other cell, in particular a target
  with no or one such neighbour, keeps its marker. Only the four orthogonal neighbours are
  counted.
\<close>

theorem update_map_captures:
  assumes "wf_map (size_w w) (map_w w)"
  shows "\<exists>m'. update_map w =
                Inr (w\<lparr>map_w := m',
                       targets_alive := targets_alive w -
                         int (card {p. in_grid (size_w w) p \<and> getitem (map_w w) p = Some target
                                       \<and> 2 \<le> orth_agents (size_w w) (map_w w) p})\<rparr>)
             \<and> wf_map (size_w w) m'
             \<and> (\<forall>p. in_grid (size_w w) p \<longrightarrow>
                    getitem m' p =
                      (if getitem (map_w w) p = Some target
                          \<and> 2 \<le> orth_agents (size_w w) (map_w w) p
                       then Some empty_el else getitem (map_w w) p))"
proof -
  have ps: "\<forall>p \<in> set (pixels (size_w w)). in_grid (size_w w) p"
    by (simp add: set_pixels)
  from scan_wf [OF assms ps distinct_pixels] obtain m' where
    m': "scan w (size_w w) (pixels (size_w w)) =
           Inr (w\<lparr>map_w := m', targets_alive := targets_alive w -
              int (length (filter (captured (size_w w) (map_w w)) (pixels (size_w w))))\<rparr>)"
      "wf_map (size_w w) m'"
      "\<forall>q. in_grid (size_w w) q \<longrightarrow> getitem m' q =
         (if q \<in> set (pixels (size_w w)) \<and> captured (size_w w) (map_w w) q
          then Some empty_el else getitem (map_w w) q)"
    by blast
  show ?thesis
    using m' by (intro exI [of _ m']) (simp add: update_map_def captured_count set_pixels captured_def)
qed

theorem update_map_captures_witness:
  "wf_map (size_w w55) (map_w w55) \<and>
   (\<exists>m'. update_map w55 =
            Inr (w55\<lparr>map_w := m',
                   targets_alive := targets_alive w55 -
                     int (card {p. in_grid (size_w w55) p \<and> getitem (map_w w55) p = Some target
                                   \<and> 2 \<le> orth_agents (size_w w55) (map_w w55) p})\<rparr>)
         \<and> wf_map (size_w w55) m'
         \<and> (\<forall>p. in_grid (size_w w55) p \<longrightarrow>
                getitem m' p =
                  (if getitem (map_w w55) p = Some target
                      \<and> 2 \<le> orth_agents (size_w w55) (map_w w55) p
                   then Some empty_el else getitem (map_w w55) p)))"
proof -
  have h: "wf_map (size_w w55) (map_w w55)"
    by (simp add: w55_def wf_map_def)
  from update_map_captures [OF h] h show ?thesis by blast
qed

text \<open>The scan on \<open>w55\<close>: the target at \<open>(2, 1)\<close> goes, the one at \<open>(2, 3)\<close> stays.\<close>

lemma update_map_w55:
  "update_map w55 =
     Inr (w55\<lparr>map_w := [[empty_el, empty_el, empty_el, empty_el, empty_el],
                         [empty_el, agent, empty_el, agent, empty_el],
                         [empty_el, empty_el, empty_el, target, empty_el],
                         [empty_el, agent, empty_el, empty_el, empty_el],
                         [empty_el, empty_el, empty_el, empty_el, empty_el]],
              targets_alive := 1\<rparr>)"
  by code_simp

text \<open>
  C6: the capture scan is idempotent: a second scan right after the first changes neither
  the grid nor \<open>targets_alive\<close>.
\<close>

theorem update_map_idempotent:
  assumes "wf_map (size_w w) (map_w w)"
  shows "\<exists>w1. update_map w = Inr w1 \<and> update_map w1 = Inr w1"
proof -
  let ?sz = "size_w w" and ?m = "map_w w"
  have ps: "\<forall>p \<in> set (pixels ?sz). in_grid ?sz p"
    by (simp add: set_pixels)
  from scan_wf [OF assms ps distinct_pixels] obtain m' k where
    m': "scan w ?sz (pixels ?sz) = Inr (w\<lparr>map_w := m', targets_alive := k\<rparr>)"
      "wf_map ?sz m'"
      "\<forall>q. in_grid ?sz q \<longrightarrow> getitem m' q =
         (if q \<in> set (pixels ?sz) \<and> captured ?sz ?m q then Some empty_el else getitem ?m q)"
    by blast
  let ?w1 = "w\<lparr>map_w := m', targets_alive := k\<rparr>"
  have view: "\<And>q. in_grid ?sz q \<Longrightarrow>
      getitem m' q = (if captured ?sz ?m q then Some empty_el else getitem ?m q)"
    using m'(3) [rule_format] by (simp add: set_pixels)
  have agents_same: "\<And>q. in_grid ?sz q \<Longrightarrow>
      getitem m' q = Some agent \<longleftrightarrow> getitem ?m q = Some agent"
    using view by (auto simp: captured_def)
  have none: "\<forall>p \<in> set (pixels ?sz). in_grid ?sz p \<and> \<not> captured ?sz (map_w ?w1) p"
  proof
    fix p assume "p \<in> set (pixels ?sz)"
    then have p: "in_grid ?sz p" by (simp add: set_pixels)
    have "orth_agents ?sz m' p = orth_agents ?sz ?m p"
      by (rule orth_agents_cong) (rule agents_same)
    then have "\<not> captured ?sz m' p"
      using view [OF p] by (auto simp: captured_def)
    with p show "in_grid ?sz p \<and> \<not> captured ?sz (map_w ?w1) p" by simp
  qed
  have "scan ?w1 ?sz (pixels ?sz) = Inr ?w1"
    by (rule scan_noop) (use m'(2) none in simp_all)
  then show ?thesis
    using m'(1) by (intro exI [of _ ?w1]) (simp add: update_map_def)
qed

theorem update_map_idempotent_witness:
  "wf_map (size_w w55) (map_w w55) \<and> (\<exists>w1. update_map w55 = Inr w1 \<and> update_map w1 = Inr w1)"
proof -
  have h: "wf_map (size_w w55) (map_w w55)"
    by (simp add: w55_def wf_map_def)
  from update_map_idempotent [OF h] h show ?thesis by blast
qed

section \<open>Properties of the moves\<close>

lemma update_action_inv:
  assumes wf: "wf_world w" and ag: "map_of (agents w) k = Some ag"
  shows "\<exists>w'. update_action w a k = Inr w' \<and> wf_world w' \<and> size_w w' = size_w w
           \<and> map fst (agents w') = map fst (agents w)
           \<and> targets_alive w' = targets_alive w \<and> nb_targets w' = nb_targets w
           \<and> (\<forall>q. in_grid (size_w w) q \<longrightarrow> getitem (map_w w') q = Some target
                  \<longrightarrow> getitem (map_w w) q = Some target)"
proof -
  let ?p = "position ag" and ?d = "destination a (position ag)" and ?sz = "size_w w"
  let ?ok = "boundary_check a ?sz ?p \<and> getitem (map_w w) ?d = Some empty_el"
  have wfm: "wf_map ?sz (map_w w)" and pos: "in_grid ?sz ?p"
    using wf ag by (auto simp: wf_world_def dest: agents_in_grid_lookup)
  have res: "update_action w a k = Inr (if ?ok then moved w k ag ?d else w)"
    by (rule update_action_wf [OF wfm ag pos])
  show ?thesis
  proof (cases ?ok)
    case False
    then show ?thesis using res wf by auto
  next
    case True
    then have d: "in_grid ?sz ?d"
      using boundary_check_dest [OF pos] by blast
    have wf1: "wf_map ?sz (put (map_w w) ?d agent)" by (rule wf_put [OF wfm])
    have kin: "k \<in> fst ` set (agents w)"
      using ag by (metis domI dom_map_of_conv_image_fst)
    have keys: "map fst (agents (moved w k ag ?d)) = map fst (agents w)"
      using kin by (simp add: moved_def update_keys)
    have tg: "\<forall>q. in_grid ?sz q \<longrightarrow> getitem (map_w (moved w k ag ?d)) q = Some target
                  \<longrightarrow> getitem (map_w w) q = Some target"
      by (auto simp: moved_def getitem_put [OF wf1 pos] getitem_put [OF wfm d] split: if_splits)
    have "wf_world (moved w k ag ?d)"
      by (rule wf_world_moved [OF wf d])
    moreover have "size_w (moved w k ag ?d) = ?sz" "targets_alive (moved w k ag ?d) = targets_alive w"
      "nb_targets (moved w k ag ?d) = nb_targets w"
      by (simp_all add: moved_def)
    ultimately show ?thesis
      using True res keys tg by (intro exI [of _ "moved w k ag ?d"]) simp
  qed
qed

lemma known_lookup: "k \<in> set (map fst al) \<Longrightarrow> \<exists>ag. map_of al k = Some ag"
  by (metis domD dom_map_of_conv_image_fst set_map)

lemma unknown_lookup: "k \<notin> set (map fst al) \<Longrightarrow> map_of al k = None"
  by (metis domIff dom_map_of_conv_image_fst set_map)

lemma moves_inv:
  assumes "wf_world w" "\<forall>ka \<in> set ja. fst ka \<in> set (map fst (agents w))"
  shows "\<exists>w'. moves w ja = Inr w' \<and> wf_world w' \<and> size_w w' = size_w w
           \<and> map fst (agents w') = map fst (agents w)
           \<and> targets_alive w' = targets_alive w \<and> nb_targets w' = nb_targets w
           \<and> (\<forall>q. in_grid (size_w w) q \<longrightarrow> getitem (map_w w') q = Some target
                  \<longrightarrow> getitem (map_w w) q = Some target)"
  using assms
proof (induction ja arbitrary: w)
  case Nil
  then show ?case by simp
next
  case (Cons ka ja)
  obtain k a where ka: "ka = (k, a)" by (cases ka)
  from Cons.prems ka obtain ag where ag: "map_of (agents w) k = Some ag"
    using known_lookup [of k "agents w"] by auto
  from update_action_inv [OF Cons.prems(1) ag, of a] obtain w1 where
    w1: "update_action w a k = Inr w1" "wf_world w1" "size_w w1 = size_w w"
      "map fst (agents w1) = map fst (agents w)"
      "targets_alive w1 = targets_alive w" "nb_targets w1 = nb_targets w"
      "\<forall>q. in_grid (size_w w) q \<longrightarrow> getitem (map_w w1) q = Some target
                  \<longrightarrow> getitem (map_w w) q = Some target"
    by blast
  have "\<forall>ka \<in> set ja. fst ka \<in> set (map fst (agents w1))"
    using Cons.prems(2) w1(4) by simp
  from Cons.IH [OF w1(2) this] obtain w' where
    w': "moves w1 ja = Inr w'" "wf_world w'" "size_w w' = size_w w1"
      "map fst (agents w') = map fst (agents w1)"
      "targets_alive w' = targets_alive w1" "nb_targets w' = nb_targets w1"
      "\<forall>q. in_grid (size_w w1) q \<longrightarrow> getitem (map_w w') q = Some target
                  \<longrightarrow> getitem (map_w w1) q = Some target"
    by blast
  show ?case
    using ka w1 w' by (intro exI [of _ w']) simp
qed

lemma moves_append:
  "moves w (xs @ ys) = (case moves w xs of Inl e \<Rightarrow> Inl e | Inr w' \<Rightarrow> moves w' ys)"
  by (induction xs arbitrary: w) (auto split: sum.splits)

lemma known_prefix_known:
  "\<forall>ka \<in> set (known_prefix al ja). fst ka \<in> set (map fst al)"
  unfolding known_prefix_def by (metis set_takeWhileD)

lemma known_prefix_split:
  "known_prefix al ja \<noteq> ja \<Longrightarrow>
   \<exists>k a post. ja = known_prefix al ja @ (k, a) # post \<and> k \<notin> set (map fst al)"
proof -
  assume ne: "known_prefix al ja \<noteq> ja"
  let ?P = "\<lambda>ka. fst ka \<in> set (map fst al)"
  have j: "ja = takeWhile ?P ja @ dropWhile ?P ja" by simp
  have "dropWhile ?P ja \<noteq> []"
    using ne unfolding known_prefix_def by (metis append_Nil2 takeWhile_dropWhile_id)
  then obtain x post where d: "dropWhile ?P ja = x # post" by (cases "dropWhile ?P ja") auto
  then have "\<not> ?P x" by (metis hd_dropWhile list.sel(1) list.distinct(1))
  then show ?thesis
    using j d unfolding known_prefix_def by (metis prod.collapse)
qed

text \<open>
  C2: for an agent of the world standing on a cell of the grid, and an action among NOOP,
  UP, DOWN, LEFT and RIGHT, \<open>_update_action\<close> raises nothing. If the boundary check of the
  direction holds and the destination is empty, the destination is marked as agent, the
  origin becomes empty, the stored position becomes the destination (which differs from
  the origin) and no other cell changes; otherwise, and always for NOOP, the world is
  unchanged.
\<close>

theorem update_action_move:
  assumes wf: "wf_map (size_w w) (map_w w)"
    and ag: "map_of (agents w) agent_id = Some ag"
    and pos: "in_grid (size_w w) (position ag)"
    and act: "action \<in> {NOOP, UP, DOWN, LEFT, RIGHT}"
  shows "\<exists>w'. update_action w action agent_id = Inr w' \<and>
           (if boundary_check action (size_w w) (position ag)
               \<and> getitem (map_w w) (destination action (position ag)) = Some empty_el
            then map_of (agents w') agent_id = Some (ag\<lparr>position := destination action (position ag)\<rparr>)
               \<and> destination action (position ag) \<noteq> position ag
               \<and> getitem (map_w w') (destination action (position ag)) = Some agent
               \<and> getitem (map_w w') (position ag) = Some empty_el
               \<and> (\<forall>q. in_grid (size_w w) q \<and> q \<noteq> position ag \<and> q \<noteq> destination action (position ag)
                      \<longrightarrow> getitem (map_w w') q = getitem (map_w w) q)
               \<and> targets_alive w' = targets_alive w
            else w' = w)
         \<and> (action = NOOP \<longrightarrow> w' = w)"
proof -
  let ?p = "position ag" and ?d = "destination action (position ag)" and ?sz = "size_w w"
  let ?ok = "boundary_check action ?sz ?p \<and> getitem (map_w w) ?d = Some empty_el"
  have res: "update_action w action agent_id = Inr (if ?ok then moved w agent_id ag ?d else w)"
    by (rule update_action_wf [OF wf ag pos])
  have noop: "action = NOOP \<Longrightarrow> \<not> ?ok"
    by (simp add: boundary_check_def)
  show ?thesis
  proof (cases ?ok)
    case False
    then show ?thesis using res noop by auto
  next
    case True
    then have d: "in_grid ?sz ?d" and ne: "?d \<noteq> ?p"
      using boundary_check_dest [OF pos] by blast+
    have wf1: "wf_map ?sz (put (map_w w) ?d agent)" by (rule wf_put [OF wf])
    have g1: "getitem (map_w (moved w agent_id ag ?d)) ?d = Some agent"
      using ne by (simp add: moved_def getitem_put [OF wf1 pos d] getitem_put [OF wf d d])
    have g2: "getitem (map_w (moved w agent_id ag ?d)) ?p = Some empty_el"
      by (simp add: moved_def getitem_put [OF wf1 pos pos])
    have g3: "\<forall>q. in_grid ?sz q \<and> q \<noteq> ?p \<and> q \<noteq> ?d
                \<longrightarrow> getitem (map_w (moved w agent_id ag ?d)) q = getitem (map_w w) q"
      by (simp add: moved_def getitem_put [OF wf1 pos] getitem_put [OF wf d])
    have a: "map_of (agents (moved w agent_id ag ?d)) agent_id = Some (ag\<lparr>position := ?d\<rparr>)"
      by (simp add: moved_def update_conv')
    have t: "targets_alive (moved w agent_id ag ?d) = targets_alive w"
      by (simp add: moved_def)
    show ?thesis
      using True res noop ne g1 g2 g3 a t
      by (intro exI [of _ "moved w agent_id ag ?d"]) auto
  qed
qed

theorem update_action_move_witness:
  "wf_map (size_w w33) (map_w w33)
   \<and> map_of (agents w33) ''agent_1'' = Some \<lparr>id_elem = 1, position = (1, 1)\<rparr>
   \<and> in_grid (size_w w33) (1, 1) \<and> RIGHT \<in> {NOOP, UP, DOWN, LEFT, RIGHT}
   \<and> boundary_check RIGHT (size_w w33) (1, 1)
   \<and> getitem (map_w w33) (destination RIGHT (1, 1)) = Some empty_el
   \<and> (\<exists>w'. update_action w33 RIGHT ''agent_1'' = Inr w'
          \<and> map_of (agents w') ''agent_1'' = Some \<lparr>id_elem = 1, position = (1, 2)\<rparr>
          \<and> getitem (map_w w') (1, 2) = Some agent
          \<and> getitem (map_w w') (1, 1) = Some empty_el)"
proof -
  have wf: "wf_map (size_w w33) (map_w w33)"
    by (simp add: w33_def wf_map_def)
  have ag: "map_of (agents w33) ''agent_1'' = Some \<lparr>id_elem = 1, position = (1, 1)\<rparr>"
    by (simp add: w33_def)
  have pos: "in_grid (size_w w33) (position \<lparr>id_elem = 1, position = (1, 1)\<rparr>)"
    by (simp add: w33_def in_grid_def)
  have act: "RIGHT \<in> {NOOP, UP, DOWN, LEFT, RIGHT}" by simp
  have b: "boundary_check RIGHT (size_w w33) (1, 1)"
    by (simp add: boundary_check_def w33_def)
  have d: "destination RIGHT (1, 1) = (1, 2)"
    by (simp add: destination_def)
  have e: "getitem (map_w w33) (1, 2) = Some empty_el"
    by (simp add: w33_def getitem_def norm_index_def)
  from update_action_move [OF wf ag pos act] b d e wf ag pos
  show ?thesis by auto
qed

text \<open>
  C10: for an agent of the world, an action code other than 1, 2, 3 and 4 (0, 5, -1, ...)
  raises nothing and leaves the whole world unchanged.
\<close>

theorem update_action_out_of_range:
  assumes "map_of (agents w) agent_id = Some ag" and "action \<notin> {UP, DOWN, LEFT, RIGHT}"
  shows "update_action w action agent_id = Inr w"
  using assms by (simp add: update_action_def)

theorem update_action_out_of_range_witness:
  "map_of (agents w33) ''agent_1'' = Some \<lparr>id_elem = 1, position = (1, 1)\<rparr>
   \<and> (5::int) \<notin> {UP, DOWN, LEFT, RIGHT}
   \<and> update_action w33 5 ''agent_1'' = Inr w33"
proof -
  have ag: "map_of (agents w33) ''agent_1'' = Some \<lparr>id_elem = 1, position = (1, 1)\<rparr>"
    by (simp add: w33_def)
  have act: "(5::int) \<notin> {UP, DOWN, LEFT, RIGHT}" by simp
  from update_action_out_of_range [OF ag act] ag act show ?thesis by simp
qed

text \<open>
  UP and LEFT never take an agent to row 0 or to column 0.
\<close>

lemma up_left_stay_off_border:
  assumes wf: "wf_map (size_w w) (map_w w)" and ag: "map_of (agents w) agent_id = Some ag"
    and pos: "in_grid (size_w w) (position ag)" and act: "action = UP \<or> action = LEFT"
    and res: "update_action w action agent_id = Inr w'"
    and ag': "map_of (agents w') agent_id = Some ag'"
  shows "position ag' = position ag \<or>
         (if action = UP then 1 \<le> fst (position ag') else 1 \<le> snd (position ag'))"
proof -
  let ?p = "position ag" and ?d = "destination action (position ag)"
  let ?ok = "boundary_check action (size_w w) ?p \<and> getitem (map_w w) ?d = Some empty_el"
  have r: "w' = (if ?ok then moved w agent_id ag ?d else w)"
    using update_action_wf [OF wf ag pos, of action] res by simp
  show ?thesis
  proof (cases ?ok)
    case False
    then have "w' = w" using r by (auto split: if_splits)
    then show ?thesis using ag ag' by simp
  next
    case True
    then have "w' = moved w agent_id ag ?d" using r by (auto split: if_splits)
    then have "ag' = ag\<lparr>position := ?d\<rparr>"
      using ag' by (simp add: moved_def update_conv')
    then have "position ag' = ?d" by simp
    then show ?thesis
      using True act by (auto simp: boundary_check_def destination_def)
  qed
qed

text \<open>
  C3 fails for DOWN: in the world of size 3 after \<open>reset\<close>, the agent at \<open>(1, 1)\<close> moves
  down to \<open>(2, 1)\<close>, a cell of row \<open>size - 1\<close>, which lies on the border ring.
\<close>

theorem down_enters_border_ring:
  "World_init 3 1 0 0 = Inr w3_init \<and> reset w3_init id = Inr w33
   \<and> update w33 [(''agent_1'', DOWN)] = Inr (update_position_state w33_down)
   \<and> map_of (agents w33_down) ''agent_1'' = Some \<lparr>id_elem = 1, position = (size_w w33 - 1, 1)\<rparr>"
  by code_simp

text \<open>
  C9 fails: a joint action that names an unknown agent after a known one raises \<open>KeyError\<close>
  with the move of the known agent already made.
\<close>

theorem update_keeps_moves_before_KeyError:
  "update w33 [(''agent_1'', DOWN), (''agent_2'', NOOP)] = Inl (KeyError, w33_down)
   \<and> w33_down \<noteq> w33"
  by code_simp

text \<open>
  C9, amended: in a well-formed world \<open>update\<close> makes the moves of the entries before the
  first unknown name, in order. If there is no unknown name the capture scan and the
  position state follow and the tick completes; otherwise \<open>KeyError\<close> is raised with
  those moves kept and no scan run.
\<close>

theorem update_until_first_unknown:
  assumes wf: "wf_world w"
  shows "\<exists>w1. moves w (known_prefix (agents w) joint_action) = Inr w1
           \<and> (if known_prefix (agents w) joint_action = joint_action
              then \<exists>w2. update_map w1 = Inr w2
                        \<and> update w joint_action = Inr (update_position_state w2)
              else update w joint_action = Inl (KeyError, w1))"
proof -
  let ?pre = "known_prefix (agents w) joint_action"
  from moves_inv [OF wf known_prefix_known] obtain w1 where
    w1: "moves w ?pre = Inr w1" "wf_world w1" "map fst (agents w1) = map fst (agents w)"
    by blast
  show ?thesis
  proof (cases "?pre = joint_action")
    case True
    have "wf_map (size_w w1) (map_w w1)" using w1(2) by (simp add: wf_world_def)
    from update_map_effect [OF this] obtain w2 where w2: "update_map w1 = Inr w2" by blast
    show ?thesis
      using True w1(1) w2 by (intro exI [of _ w1]) (simp add: update_def bind_def)
  next
    case False
    from known_prefix_split [OF False] obtain k a post where
      s: "joint_action = ?pre @ (k, a) # post" "k \<notin> set (map fst (agents w))"
      by blast
    have "map_of (agents w1) k = None"
      using s(2) w1(3) unknown_lookup [of k "agents w1"] by simp
    then have "moves w1 ((k, a) # post) = Inl (KeyError, w1)"
      by (simp add: update_action_unknown)
    then have "moves w joint_action = Inl (KeyError, w1)"
      using w1(1) by (subst s(1)) (simp add: moves_append)
    then show ?thesis
      using False w1(1) by (intro exI [of _ w1]) (simp add: update_def bind_def)
  qed
qed

theorem update_until_first_unknown_witness:
  "wf_world w33
   \<and> known_prefix (agents w33) [(''agent_1'', DOWN), (''agent_2'', NOOP)]
       \<noteq> [(''agent_1'', DOWN), (''agent_2'', NOOP)]
   \<and> (\<exists>w1. moves w33 (known_prefix (agents w33) [(''agent_1'', DOWN), (''agent_2'', NOOP)]) = Inr w1
           \<and> update w33 [(''agent_1'', DOWN), (''agent_2'', NOOP)] = Inl (KeyError, w1))"
proof -
  have wf: "wf_world w33"
    by (simp add: wf_world_def wf_map_def agents_in_grid_def in_grid_def w33_def)
  have ne: "known_prefix (agents w33) [(''agent_1'', DOWN), (''agent_2'', NOOP)]
              \<noteq> [(''agent_1'', DOWN), (''agent_2'', NOOP)]"
    by (simp add: known_prefix_def w33_def)
  from update_until_first_unknown [OF wf, of "[(''agent_1'', DOWN), (''agent_2'', NOOP)]"] ne wf
  show ?thesis by auto
qed

section \<open>Placement\<close>

lemma interior_in_grid: "interior sz p \<Longrightarrow> in_grid sz p"
  by (simp add: interior_def in_grid_def)

lemma all_positions_product:
  "all_positions sz = map prod.swap (List.product [1..sz - 2] [1..sz - 2])"
  by (simp add: all_positions_def product_concat_map map_concat comp_def)

lemma distinct_all_positions: "distinct (all_positions sz)"
  by (simp add: all_positions_product distinct_map distinct_product)

lemma set_all_positions: "set (all_positions sz) = {p. interior sz p}"
  by (auto simp: all_positions_product interior_def)

lemma length_all_positions: "2 \<le> sz \<Longrightarrow> int (length (all_positions sz)) = (sz - 2) * (sz - 2)"
  by (simp add: all_positions_product)

lemma py_getitem_in: "0 \<le> i \<Longrightarrow> i < int (length xs) \<Longrightarrow> py_getitem xs i = Some (xs ! nat i)"
  by (simp add: py_getitem_def norm_index_in)

lemma py_getitem_set: "py_getitem xs i = Some x \<Longrightarrow> x \<in> set xs"
  by (auto simp: py_getitem_def norm_index_def split: if_splits)

lemma pick_set: "pick ap ridx i = Some p \<Longrightarrow> p \<in> set ap"
  by (auto simp: pick_def split: option.splits dest: py_getitem_set)

lemma collect_map: "(\<And>x. x \<in> set xs \<Longrightarrow> f x = Some (g x)) \<Longrightarrow> collect f xs = Some (map g xs)"
  by (induction xs) auto

lemma collect_Some:
  "collect f xs = Some ys \<Longrightarrow> length ys = length xs \<and> (\<forall>y \<in> set ys. \<exists>x \<in> set xs. f x = Some y)"
  by (induction xs arbitrary: ys) (auto split: option.splits)

lemma zeros_wf:
  "0 \<le> sz \<Longrightarrow> zeros sz = Some (replicate (nat sz) (replicate (nat sz) empty_el))
     \<and> wf_map sz (replicate (nat sz) (replicate (nat sz) empty_el))"
  by (simp add: zeros_def wf_map_def list_all_iff)

lemma getitem_zeros:
  "in_grid sz q \<Longrightarrow> getitem (replicate (nat sz) (replicate (nat sz) empty_el)) q = Some empty_el"
  by (simp add: getitem_def in_grid_def norm_index_in)

lemma mark_wf:
  assumes "wf_map sz (map_w w)" "\<forall>p \<in> set ps. in_grid sz p"
  shows "\<exists>m'. mark w ps v = Inr (w\<lparr>map_w := m'\<rparr>) \<and> wf_map sz m'
           \<and> (\<forall>q. in_grid sz q \<longrightarrow>
                  getitem m' q = (if q \<in> set ps then Some v else getitem (map_w w) q))"
  using assms
proof (induction ps arbitrary: w)
  case Nil
  then show ?case by (intro exI [of _ "map_w w"]) simp
next
  case (Cons p ps)
  let ?m = "map_w w"
  have p: "in_grid sz p" and ps: "\<forall>q \<in> set ps. in_grid sz q" using Cons.prems by auto
  have wf: "wf_map sz ?m" by (rule Cons.prems(1))
  let ?w1 = "w\<lparr>map_w := put ?m p v\<rparr>"
  have wf1: "wf_map sz (map_w ?w1)" using wf by (simp add: wf_put)
  from Cons.IH [OF wf1 ps] obtain m' where
    m': "mark ?w1 ps v = Inr (?w1\<lparr>map_w := m'\<rparr>)" "wf_map sz m'"
      "\<forall>q. in_grid sz q \<longrightarrow> getitem m' q = (if q \<in> set ps then Some v else getitem (map_w ?w1) q)"
    by blast
  have "\<forall>q. in_grid sz q \<longrightarrow> getitem m' q = (if q \<in> set (p # ps) then Some v else getitem ?m q)"
    using m'(3) by (auto simp: getitem_put [OF wf p])
  then show ?case
    using m'(1,2) by (intro exI [of _ m']) (simp add: setitem_in [OF wf p])
qed

lemma make_agents_positions: "map (position \<circ> snd) (make_agents aps) = aps"
proof -
  have "map (position \<circ> snd) (make_agents aps) = map (\<lambda>ip. aps ! fst ip) (enumerate 0 aps)"
    by (simp add: make_agents_def comp_def case_prod_beta)
  also have "\<dots> = map ((!) aps \<circ> fst) (enumerate 0 aps)"
    by (simp only: comp_def)
  also have "\<dots> = map ((!) aps) (map fst (enumerate 0 aps))"
    by (simp only: map_map)
  also have "\<dots> = aps"
    by (simp add: map_nth)
  finally show ?thesis .
qed

lemma length_make_agents: "length (make_agents aps) = length aps"
  by (simp add: make_agents_def)

lemma agents_in_grid_make:
  assumes "\<forall>p \<in> set aps. in_grid sz p"
  shows "agents_in_grid sz (make_agents aps)"
proof -
  have "set (map (position \<circ> snd) (make_agents aps)) = set aps"
    by (simp only: make_agents_positions)
  then show ?thesis
    using assms by (auto simp: agents_in_grid_def list_all_iff)
qed

text \<open>
  The names \<open>agent_1\<close>, \<open>agent_2\<close>, ... are pairwise different, so the list of items built by
  \<open>make_agents\<close> is the dictionary of the comprehension.
\<close>

lemma str_nat_nonempty: "str_nat n \<noteq> []"
  by (subst str_nat.simps) simp

lemma digit_inj: "a < 10 \<Longrightarrow> b < 10 \<Longrightarrow> digit a = digit b \<Longrightarrow> a = b"
proof -
  assume a: "a < 10" and b: "b < 10" and e: "digit a = digit b"
  have d: "distinct ''0123456789''" by simp
  have "a < length ''0123456789''" "b < length ''0123456789''" using a b by simp_all
  with d e show "a = b" unfolding digit_def by (simp only: nth_eq_iff_index_eq)
qed

lemma str_nat_inj: "str_nat n = str_nat m \<Longrightarrow> n = m"
proof (induction n arbitrary: m rule: less_induct)
  case (less n)
  show ?case
  proof (cases "n < 10")
    case True
    then have n: "str_nat n = [digit n]" by (subst str_nat.simps) simp
    show ?thesis
    proof (cases "m < 10")
      case True
      then have "str_nat m = [digit m]" by (subst str_nat.simps) simp
      with n less.prems \<open>n < 10\<close> True show ?thesis by (simp add: digit_inj)
    next
      case False
      then have "str_nat m = str_nat (m div 10) @ [digit (m mod 10)]"
        by (subst str_nat.simps) simp
      with n less.prems str_nat_nonempty [of "m div 10"] show ?thesis by simp
    qed
  next
    case False
    then have n: "str_nat n = str_nat (n div 10) @ [digit (n mod 10)]"
      by (subst str_nat.simps) simp
    show ?thesis
    proof (cases "m < 10")
      case True
      then have "str_nat m = [digit m]" by (subst str_nat.simps) simp
      with n less.prems str_nat_nonempty [of "n div 10"] show ?thesis by simp
    next
      case m: False
      then have "str_nat m = str_nat (m div 10) @ [digit (m mod 10)]"
        by (subst str_nat.simps) simp
      with n less.prems have e: "str_nat (n div 10) = str_nat (m div 10)"
        "digit (n mod 10) = digit (m mod 10)" by simp_all
      have "n div 10 < n" using False by simp
      from less.IH [OF this e(1)] have "n div 10 = m div 10" .
      moreover have "n mod 10 = m mod 10" using e(2) by (simp add: digit_inj)
      ultimately show ?thesis by (metis div_mult_mod_eq)
    qed
  qed
qed

lemma distinct_agent_names: "distinct (map fst (make_agents aps))"
proof -
  have "map fst (make_agents aps) = map ((\<lambda>i. ''agent_'' @ str (int i + 1)) \<circ> fst) (enumerate 0 aps)"
    by (simp add: make_agents_def comp_def case_prod_beta)
  also have "\<dots> = map (\<lambda>i. ''agent_'' @ str (int i + 1)) (map fst (enumerate 0 aps))"
    by (simp only: map_map)
  also have "\<dots> = map (\<lambda>i. ''agent_'' @ str_nat (Suc i)) [0..<length aps]"
    by (simp add: str_def nat_add_distrib)
  finally have e: "map fst (make_agents aps) = map (\<lambda>i. ''agent_'' @ str_nat (Suc i)) [0..<length aps]" .
  have "inj (\<lambda>i. ''agent_'' @ str_nat (Suc i))"
    by (rule injI) (auto dest: str_nat_inj)
  then show ?thesis
    unfolding e by (simp add: distinct_map inj_on_def)
qed

lemma collect_pick_interior:
  assumes "collect (pick (all_positions sz) ridx) is = Some ps"
  shows "\<forall>p \<in> set ps. interior sz p"
proof
  fix p assume "p \<in> set ps"
  with collect_Some [OF assms] obtain i where "pick (all_positions sz) ridx i = Some p"
    by blast
  then have "p \<in> set (all_positions sz)" by (rule pick_set)
  then show "interior sz p" by (simp add: set_all_positions)
qed

lemma place_core:
  assumes sz: "0 \<le> size_w w"
    and a: "collect (pick (all_positions (size_w w))
                      (sh (arange ((size_w w - 2) * (size_w w - 2)))))
              [0..nb_agents w - 1] = Some aps"
    and t: "collect (pick (all_positions (size_w w))
                      (sh (arange ((size_w w - 2) * (size_w w - 2)))))
              [nb_agents w..nb_agents w + nb_targets w - 1] = Some tps"
  shows "\<exists>m. place w sh =
               Inr (w\<lparr>targets_alive := nb_targets w, map_w := m,
                      agents := make_agents aps, targets := tps\<rparr>)
            \<and> wf_map (size_w w) m
            \<and> (\<forall>q. in_grid (size_w w) q \<longrightarrow>
                   getitem m q = (if q \<in> set tps then Some target
                                  else if q \<in> set aps then Some agent else Some empty_el))"
proof -
  let ?sz = "size_w w"
  let ?z = "replicate (nat ?sz) (replicate (nat ?sz) empty_el)"
  let ?w3 = "w\<lparr>targets_alive := nb_targets w, map_w := ?z,
                agents := make_agents aps, targets := tps\<rparr>"
  have z: "zeros ?sz = Some ?z" and wfz: "wf_map ?sz (map_w ?w3)"
    using zeros_wf [OF sz] by simp_all
  have ia: "\<forall>p \<in> set aps. in_grid ?sz p" and it: "\<forall>p \<in> set tps. in_grid ?sz p"
    using collect_pick_interior [OF a] collect_pick_interior [OF t] interior_in_grid by blast+
  from mark_wf [OF wfz ia, of agent] obtain m4 where
    m4: "mark ?w3 aps agent = Inr (?w3\<lparr>map_w := m4\<rparr>)" "wf_map ?sz m4"
      "\<forall>q. in_grid ?sz q \<longrightarrow> getitem m4 q = (if q \<in> set aps then Some agent else getitem (map_w ?w3) q)"
    by blast
  let ?w4 = "?w3\<lparr>map_w := m4\<rparr>"
  have wf4: "wf_map ?sz (map_w ?w4)" using m4(2) by simp
  from mark_wf [OF wf4 it, of target] obtain m5 where
    m5: "mark ?w4 tps target = Inr (?w4\<lparr>map_w := m5\<rparr>)" "wf_map ?sz m5"
      "\<forall>q. in_grid ?sz q \<longrightarrow> getitem m5 q = (if q \<in> set tps then Some target else getitem (map_w ?w4) q)"
    by blast
  have view: "\<forall>q. in_grid ?sz q \<longrightarrow>
                getitem m5 q = (if q \<in> set tps then Some target
                                else if q \<in> set aps then Some agent else Some empty_el)"
    using m4(3) m5(3) by (simp add: getitem_zeros)
  have "place w sh = Inr (?w4\<lparr>map_w := m5\<rparr>)"
    using z a t m4(1) m5(1) by (simp add: place_def Let_def bind_def)
  then show ?thesis
    using m5(2) view by (intro exI [of _ m5]) simp
qed

lemma place_Inr:
  assumes "place w sh = Inr p"
  shows "\<exists>aps tps m.
           p = w\<lparr>targets_alive := nb_targets w, map_w := m,
                 agents := make_agents aps, targets := tps\<rparr>
         \<and> wf_map (size_w w) m
         \<and> (\<forall>q \<in> set aps. interior (size_w w) q) \<and> (\<forall>q \<in> set tps. interior (size_w w) q)
         \<and> length tps = length [nb_agents w..nb_agents w + nb_targets w - 1]
         \<and> (\<forall>q. in_grid (size_w w) q \<longrightarrow>
                getitem m q = (if q \<in> set tps then Some target
                               else if q \<in> set aps then Some agent else Some empty_el))"
proof -
  let ?pk = "pick (all_positions (size_w w)) (sh (arange ((size_w w - 2) * (size_w w - 2))))"
  have sz: "0 \<le> size_w w"
    using assms by (auto simp: place_def Let_def zeros_def split: if_splits)
  obtain aps where a: "collect ?pk [0..nb_agents w - 1] = Some aps"
    using assms by (cases "collect ?pk [0..nb_agents w - 1]")
      (auto simp: place_def Let_def split: option.splits)
  obtain tps where t: "collect ?pk [nb_agents w..nb_agents w + nb_targets w - 1] = Some tps"
    using assms a by (cases "collect ?pk [nb_agents w..nb_agents w + nb_targets w - 1]")
      (auto simp: place_def Let_def split: option.splits)
  from place_core [where w = w and sh = sh, OF sz a t] assms obtain m where
    m: "p = w\<lparr>targets_alive := nb_targets w, map_w := m, agents := make_agents aps, targets := tps\<rparr>"
      "wf_map (size_w w) m"
      "\<forall>q. in_grid (size_w w) q \<longrightarrow>
                getitem m q = (if q \<in> set tps then Some target
                               else if q \<in> set aps then Some agent else Some empty_el)"
    by auto
  show ?thesis
    using m collect_pick_interior [OF a] collect_pick_interior [OF t] collect_Some [OF t]
    by (intro exI [of _ aps] exI [of _ tps] exI [of _ m]) simp
qed

lemma picks_valid:
  fixes sz na nt :: int
  defines "n \<equiv> (sz - 2) * (sz - 2)"
  assumes sz: "2 \<le> sz" and na: "0 \<le> na" and nt: "0 \<le> nt" and fit: "na + nt \<le> n"
    and perm: "mset (sh (arange n)) = mset (arange n)"
  shows "\<exists>aps tps. collect (pick (all_positions sz) (sh (arange n))) [0..na - 1] = Some aps
           \<and> collect (pick (all_positions sz) (sh (arange n))) [na..na + nt - 1] = Some tps
           \<and> int (length aps) = na \<and> int (length tps) = nt \<and> distinct (aps @ tps)"
proof -
  let ?ap = "all_positions sz" and ?ridx = "sh (arange n)"
  let ?g = "\<lambda>i. ?ap ! nat (?ridx ! nat i)"
  have n0: "0 \<le> n" using sz by (simp add: n_def)
  have lap: "int (length ?ap) = n" using length_all_positions [OF sz] by (simp add: n_def)
  have lr: "int (length ?ridx) = n"
    using mset_eq_length [OF perm] n0 by (simp add: arange_def)
  have dr: "distinct ?ridx"
    using mset_eq_imp_distinct_iff [OF perm] by (simp add: arange_def)
  have sr: "set ?ridx = {0..n - 1}"
    using mset_eq_setD [OF perm] by (simp add: arange_def)
  have rng: "\<And>i. 0 \<le> i \<Longrightarrow> i < n \<Longrightarrow> 0 \<le> ?ridx ! nat i \<and> ?ridx ! nat i < n"
  proof -
    fix i :: int assume "0 \<le> i" "i < n"
    then have "nat i < length ?ridx" using lr by linarith
    then have "?ridx ! nat i \<in> set ?ridx" by (rule nth_mem)
    then show "0 \<le> ?ridx ! nat i \<and> ?ridx ! nat i < n" using sr by auto
  qed
  have pk: "\<And>i. 0 \<le> i \<Longrightarrow> i < n \<Longrightarrow> pick ?ap ?ridx i = Some (?g i)"
    using rng lr lap by (simp add: pick_def py_getitem_in)
  have inj: "inj_on ?g {0..n - 1}"
  proof (rule inj_onI)
    fix i j assume i: "i \<in> {0..n - 1}" and j: "j \<in> {0..n - 1}" and e: "?g i = ?g j"
    have bi: "nat (?ridx ! nat i) < length ?ap" and bj: "nat (?ridx ! nat j) < length ?ap"
      using rng [of i] rng [of j] i j lap by auto
    have "nat (?ridx ! nat i) = nat (?ridx ! nat j)"
      using e bi bj distinct_all_positions [of sz] by (simp add: nth_eq_iff_index_eq)
    then have "?ridx ! nat i = ?ridx ! nat j"
      using rng [of i] rng [of j] i j by (simp add: eq_nat_nat_iff)
    moreover have "nat i < length ?ridx" "nat j < length ?ridx" using i j lr by auto
    ultimately have "nat i = nat j" using dr by (simp add: nth_eq_iff_index_eq)
    then show "i = j" using i j by auto
  qed
  let ?aps = "map ?g [0..na - 1]" and ?tps = "map ?g [na..na + nt - 1]"
  have ca: "collect (pick ?ap ?ridx) [0..na - 1] = Some ?aps"
    by (rule collect_map) (use pk fit nt in auto)
  have ct: "collect (pick ?ap ?ridx) [na..na + nt - 1] = Some ?tps"
    by (rule collect_map) (use pk fit na in auto)
  have sa: "set [0..na - 1] \<subseteq> {0..n - 1}" and st: "set [na..na + nt - 1] \<subseteq> {0..n - 1}"
    using fit na nt by auto
  have da: "distinct ?aps" and dt: "distinct ?tps"
    using inj_on_subset [OF inj sa] inj_on_subset [OF inj st] by (simp_all add: distinct_map)
  have dis: "set ?aps \<inter> set ?tps = {}"
  proof -
    have "set [0..na - 1] \<inter> set [na..na + nt - 1] = {}" by auto
    then have "?g ` set [0..na - 1] \<inter> ?g ` set [na..na + nt - 1] = {}"
      using inj_on_image_Int [OF inj sa st] by simp
    then show ?thesis by simp
  qed
  have "int (length ?aps) = na" "int (length ?tps) = nt" using na nt by simp_all
  then show ?thesis
    using ca ct da dt dis by (intro exI [of _ ?aps] exI [of _ ?tps]) simp
qed

lemma place_valid:
  assumes sz: "2 \<le> size_w w" and na: "0 \<le> nb_agents w" and nt: "0 \<le> nb_targets w"
    and fit: "nb_agents w + nb_targets w \<le> (size_w w - 2) * (size_w w - 2)"
    and perm: "mset (sh (arange ((size_w w - 2) * (size_w w - 2))))
                 = mset (arange ((size_w w - 2) * (size_w w - 2)))"
  shows "\<exists>aps tps m.
           place w sh = Inr (w\<lparr>targets_alive := nb_targets w, map_w := m,
                                agents := make_agents aps, targets := tps\<rparr>)
         \<and> int (length aps) = nb_agents w \<and> int (length tps) = nb_targets w
         \<and> distinct (aps @ tps)
         \<and> (\<forall>q \<in> set (aps @ tps). interior (size_w w) q)
         \<and> wf_map (size_w w) m
         \<and> (\<forall>q. in_grid (size_w w) q \<longrightarrow>
                getitem m q = (if q \<in> set tps then Some target
                               else if q \<in> set aps then Some agent else Some empty_el))"
proof -
  from picks_valid [where sh = sh and sz = "size_w w" and na = "nb_agents w"
      and nt = "nb_targets w", OF sz na nt fit perm] obtain aps tps where
    c: "collect (pick (all_positions (size_w w))
                      (sh (arange ((size_w w - 2) * (size_w w - 2)))))
              [0..nb_agents w - 1] = Some aps"
       "collect (pick (all_positions (size_w w))
                      (sh (arange ((size_w w - 2) * (size_w w - 2)))))
              [nb_agents w..nb_agents w + nb_targets w - 1] = Some tps"
       "int (length aps) = nb_agents w" "int (length tps) = nb_targets w" "distinct (aps @ tps)"
    by blast
  have sz0: "0 \<le> size_w w" using sz by simp
  from place_core [where w = w and sh = sh, OF sz0 c(1) c(2)] obtain m where
    m: "place w sh = Inr (w\<lparr>targets_alive := nb_targets w, map_w := m,
                                agents := make_agents aps, targets := tps\<rparr>)"
       "wf_map (size_w w) m"
       "\<forall>q. in_grid (size_w w) q \<longrightarrow>
                getitem m q = (if q \<in> set tps then Some target
                               else if q \<in> set aps then Some agent else Some empty_el)"
    by blast
  have "\<forall>q \<in> set (aps @ tps). interior (size_w w) q"
    using collect_pick_interior [OF c(1)] collect_pick_interior [OF c(2)] by auto
  then show ?thesis
    using m c(3,4,5) by (intro exI [of _ aps] exI [of _ tps] exI [of _ m]) simp
qed

lemma reset_valid:
  assumes sz: "2 \<le> size_w w" and na: "0 \<le> nb_agents w" and nt: "0 \<le> nb_targets w"
    and fit: "nb_agents w + nb_targets w \<le> (size_w w - 2) * (size_w w - 2)"
    and perm: "mset (sh (arange ((size_w w - 2) * (size_w w - 2))))
                 = mset (arange ((size_w w - 2) * (size_w w - 2)))"
  shows "\<exists>aps tps m m'.
           place w sh = Inr (w\<lparr>targets_alive := nb_targets w, map_w := m,
                                agents := make_agents aps, targets := tps\<rparr>)
         \<and> reset w sh =
             Inr (w\<lparr>targets_alive :=
                       nb_targets w - int (length (filter (captured (size_w w) m) (pixels (size_w w)))),
                     map_w := m', agents := make_agents aps, targets := tps,
                     agent_position := Some (map (\<lambda>(k, v). (k, position v)) (make_agents aps))\<rparr>)
         \<and> int (length aps) = nb_agents w \<and> int (length tps) = nb_targets w
         \<and> distinct (aps @ tps)
         \<and> (\<forall>q \<in> set (aps @ tps). interior (size_w w) q)
         \<and> wf_map (size_w w) m
         \<and> (\<forall>q. in_grid (size_w w) q \<longrightarrow>
                getitem m q = (if q \<in> set tps then Some target
                               else if q \<in> set aps then Some agent else Some empty_el))
         \<and> wf_map (size_w w) m'
         \<and> (\<forall>q. in_grid (size_w w) q \<longrightarrow>
                getitem m' q = (if captured (size_w w) m q then Some empty_el else getitem m q))"
proof -
  let ?sz = "size_w w"
  from place_valid [where w = w and sh = sh, OF sz na nt fit perm] obtain aps tps m where
    p: "place w sh = Inr (w\<lparr>targets_alive := nb_targets w, map_w := m,
                                agents := make_agents aps, targets := tps\<rparr>)"
       "int (length aps) = nb_agents w" "int (length tps) = nb_targets w"
       "distinct (aps @ tps)" "\<forall>q \<in> set (aps @ tps). interior ?sz q" "wf_map ?sz m"
       "\<forall>q. in_grid ?sz q \<longrightarrow>
                getitem m q = (if q \<in> set tps then Some target
                               else if q \<in> set aps then Some agent else Some empty_el)"
    by blast
  let ?p = "w\<lparr>targets_alive := nb_targets w, map_w := m,
               agents := make_agents aps, targets := tps\<rparr>"
  have wfp: "wf_map (size_w ?p) (map_w ?p)" using p(6) by simp
  from update_map_effect [OF wfp] obtain m' where
    m': "update_map ?p =
           Inr (?p\<lparr>map_w := m',
                  targets_alive := targets_alive ?p -
                    int (length (filter (captured (size_w ?p) (map_w ?p)) (pixels (size_w ?p))))\<rparr>)"
        "wf_map (size_w ?p) m'"
        "\<forall>q. in_grid (size_w ?p) q \<longrightarrow>
           getitem m' q = (if captured (size_w ?p) (map_w ?p) q
                           then Some empty_el else getitem (map_w ?p) q)"
    by blast
  show ?thesis
    using p m'
    by (intro exI [of _ aps] exI [of _ tps] exI [of _ m] exI [of _ m'])
       (simp add: reset_def bind_def update_position_state_def)
qed

lemma grid_cells_eq:
  assumes "\<forall>q \<in> S. in_grid sz q"
    and "\<And>q. in_grid sz q \<Longrightarrow> getitem m q = Some v \<longleftrightarrow> q \<in> S"
  shows "{q. in_grid sz q \<and> getitem m q = Some v} = S"
  using assms by auto

section \<open>The counter of live targets\<close>

lemma filter_length_mono:
  "(\<And>x. x \<in> set xs \<Longrightarrow> P x \<Longrightarrow> Q x) \<Longrightarrow> length (filter P xs) \<le> length (filter Q xs)"
  by (induction xs) auto

lemma filter_length_split:
  "(\<And>x. x \<in> set xs \<Longrightarrow> P x \<longleftrightarrow> Q x \<and> \<not> R x) \<Longrightarrow> (\<And>x. x \<in> set xs \<Longrightarrow> R x \<Longrightarrow> Q x) \<Longrightarrow>
   length (filter P xs) + length (filter R xs) = length (filter Q xs)"
  by (induction xs) auto

lemma count_cells_mono:
  assumes "\<And>q. in_grid sz q \<Longrightarrow> getitem m' q = Some v \<Longrightarrow> getitem m q = Some v"
  shows "count_cells sz m' v \<le> count_cells sz m v"
  unfolding count_cells_def
  by (rule filter_length_mono) (use assms in \<open>simp add: set_pixels\<close>)

lemma count_cells_card:
  "count_cells sz m v = card {q. in_grid sz q \<and> getitem m q = Some v}"
proof -
  have "{q. getitem m q = Some v} \<inter> set (pixels sz) = {q. in_grid sz q \<and> getitem m q = Some v}"
    by (auto simp: set_pixels)
  then show ?thesis
    by (simp add: count_cells_def distinct_length_filter [OF distinct_pixels])
qed

lemma finite_grid: "finite {q. in_grid sz q}"
  using finite_set [of "pixels sz"] by (simp only: set_pixels)

lemma place_inv:
  assumes p: "place w sh = Inr p" and nt: "0 \<le> nb_targets w"
  shows "alive_inv p \<and> targets_alive p = nb_targets w \<and> nb_targets p = nb_targets w
         \<and> size_w p = size_w w"
proof -
  let ?sz = "size_w w"
  from place_Inr [OF p] obtain aps tps m where
    m: "p = w\<lparr>targets_alive := nb_targets w, map_w := m,
               agents := make_agents aps, targets := tps\<rparr>"
      "wf_map ?sz m" "\<forall>q \<in> set aps. interior ?sz q" "\<forall>q \<in> set tps. interior ?sz q"
      "length tps = length [nb_agents w..nb_agents w + nb_targets w - 1]"
      "\<forall>q. in_grid ?sz q \<longrightarrow>
                getitem m q = (if q \<in> set tps then Some target
                               else if q \<in> set aps then Some agent else Some empty_el)"
    by blast
  have "{q. in_grid ?sz q \<and> getitem m q = Some target} \<subseteq> set tps"
  proof
    fix q assume "q \<in> {q. in_grid ?sz q \<and> getitem m q = Some target}"
    then have "in_grid ?sz q" "getitem m q = Some target" by simp_all
    with m(6) [rule_format, of q] show "q \<in> set tps" by (simp split: if_splits)
  qed
  then have "count_cells ?sz m target \<le> card (set tps)"
    unfolding count_cells_card by (intro card_mono) simp_all
  also have "\<dots> \<le> length tps" by (rule card_length)
  finally have "int (count_cells ?sz m target) \<le> nb_targets w"
    using m(5) nt by simp
  moreover have "agents_in_grid ?sz (make_agents aps)"
    by (rule agents_in_grid_make) (use m(3) interior_in_grid in blast)
  ultimately show ?thesis
    using m(1,2) by (simp add: alive_inv_def wf_world_def)
qed

lemma update_map_inv:
  assumes "alive_inv w"
  shows "\<exists>w'. update_map w = Inr w' \<and> alive_inv w' \<and> targets_alive w' \<le> targets_alive w
           \<and> nb_targets w' = nb_targets w \<and> size_w w' = size_w w \<and> agents w' = agents w"
proof -
  let ?sz = "size_w w" and ?m = "map_w w"
  have wf: "wf_map ?sz ?m" and ag: "agents_in_grid ?sz (agents w)"
    and lo: "int (count_cells ?sz ?m target) \<le> targets_alive w"
    and hi: "targets_alive w \<le> nb_targets w"
    using assms by (simp_all add: alive_inv_def wf_world_def)
  let ?k = "length (filter (captured ?sz ?m) (pixels ?sz))"
  from update_map_effect [OF wf] obtain m' where
    m': "update_map w = Inr (w\<lparr>map_w := m', targets_alive := targets_alive w - int ?k\<rparr>)"
      "wf_map ?sz m'"
      "\<forall>q. in_grid ?sz q \<longrightarrow> getitem m' q = (if captured ?sz ?m q then Some empty_el else getitem ?m q)"
    by blast
  have "count_cells ?sz m' target + ?k = count_cells ?sz ?m target"
    unfolding count_cells_def
  proof (rule filter_length_split)
    fix q assume "q \<in> set (pixels ?sz)"
    then have "in_grid ?sz q" by (simp add: set_pixels)
    with m'(3) [rule_format, of q]
    show "getitem m' q = Some target \<longleftrightarrow> getitem ?m q = Some target \<and> \<not> captured ?sz ?m q"
      by (simp split: if_splits)
  next
    fix q assume "captured ?sz ?m q"
    then show "getitem ?m q = Some target" by (simp add: captured_def)
  qed
  then have "int (count_cells ?sz m' target) \<le> targets_alive w - int ?k"
    using lo by linarith
  then show ?thesis
    using m'(1,2) ag hi
    by (intro exI [of _ "w\<lparr>map_w := m', targets_alive := targets_alive w - int ?k\<rparr>"])
       (simp add: alive_inv_def wf_world_def)
qed

lemma update_position_state_inv:
  "alive_inv w \<Longrightarrow> alive_inv (update_position_state w)"
  by (simp add: alive_inv_def wf_world_def update_position_state_def)

lemma moves_any:
  assumes "wf_world w" "moves w ja = Inr w' \<or> moves w ja = Inl (e, w')"
  shows "wf_world w' \<and> size_w w' = size_w w
           \<and> targets_alive w' = targets_alive w \<and> nb_targets w' = nb_targets w
           \<and> (\<forall>q. in_grid (size_w w) q \<longrightarrow> getitem (map_w w') q = Some target
                  \<longrightarrow> getitem (map_w w) q = Some target)"
  using assms
proof (induction ja arbitrary: w)
  case Nil
  then show ?case by auto
next
  case (Cons ka ja)
  obtain k a where ka: "ka = (k, a)" by (cases ka)
  show ?case
  proof (cases "map_of (agents w) k")
    case None
    then have "moves w (ka # ja) = Inl (KeyError, w)"
      using ka by (simp add: update_action_unknown)
    then show ?thesis using Cons.prems by auto
  next
    case (Some ag)
    from update_action_inv [OF Cons.prems(1) Some, of a] obtain w1 where
      w1: "update_action w a k = Inr w1" "wf_world w1" "size_w w1 = size_w w"
        "targets_alive w1 = targets_alive w" "nb_targets w1 = nb_targets w"
        "\<forall>q. in_grid (size_w w) q \<longrightarrow> getitem (map_w w1) q = Some target
                  \<longrightarrow> getitem (map_w w) q = Some target"
      by blast
    have "moves w1 ja = Inr w' \<or> moves w1 ja = Inl (e, w')"
      using Cons.prems(2) ka w1(1) by simp
    from Cons.IH [OF w1(2) this] show ?thesis
      using w1 by simp
  qed
qed

lemma moves_alive_inv:
  assumes "alive_inv w" "moves w ja = Inr w' \<or> moves w ja = Inl (e, w')"
  shows "alive_inv w' \<and> targets_alive w' = targets_alive w \<and> nb_targets w' = nb_targets w"
proof -
  have wf: "wf_world w" using assms(1) by (simp add: alive_inv_def)
  from moves_any [OF wf assms(2)] have
    a: "wf_world w'" "size_w w' = size_w w" "targets_alive w' = targets_alive w"
      "nb_targets w' = nb_targets w"
      "\<forall>q. in_grid (size_w w) q \<longrightarrow> getitem (map_w w') q = Some target
                  \<longrightarrow> getitem (map_w w) q = Some target"
    by simp_all
  have "count_cells (size_w w) (map_w w') target \<le> count_cells (size_w w) (map_w w) target"
    by (rule count_cells_mono) (use a(5) in blast)
  then show ?thesis
    using a assms(1) by (simp add: alive_inv_def)
qed

lemma update_alive_inv:
  assumes inv: "alive_inv w"
  shows "(update w ja = Inr w' \<longrightarrow> alive_inv w' \<and> targets_alive w' \<le> targets_alive w
             \<and> nb_targets w' = nb_targets w)
       \<and> (update w ja = Inl (e, w') \<longrightarrow> alive_inv w' \<and> targets_alive w' = targets_alive w
             \<and> nb_targets w' = nb_targets w)"
proof (cases "moves w ja")
  case (Inl ew)
  obtain e1 w1 where ew: "ew = (e1, w1)" by (cases ew)
  have "moves w ja = Inr w1 \<or> moves w ja = Inl (e1, w1)" using Inl ew by simp
  from moves_alive_inv [OF inv this] show ?thesis
    using Inl ew by (auto simp: update_def bind_def)
next
  case (Inr w1)
  then have "moves w ja = Inr w1 \<or> moves w ja = Inl (e, w1)" by simp
  from moves_alive_inv [OF inv this] have
    w1: "alive_inv w1" "targets_alive w1 = targets_alive w" "nb_targets w1 = nb_targets w"
    by simp_all
  from update_map_inv [OF w1(1)] obtain w2 where
    w2: "update_map w1 = Inr w2" "alive_inv w2" "targets_alive w2 \<le> targets_alive w1"
      "nb_targets w2 = nb_targets w1"
    by blast
  have u: "update w ja = Inr (update_position_state w2)"
    using Inr w2(1) by (simp add: update_def bind_def)
  show ?thesis
    using u w1 w2 update_position_state_inv [OF w2(2)]
    by (auto simp: update_position_state_def)
qed

lemma reset_alive_inv:
  assumes "reset w0 sh = Inr w" "0 \<le> nb_targets w0"
  shows "alive_inv w"
proof -
  from assms(1) obtain p where p: "place w0 sh = Inr p"
    by (cases "place w0 sh") (auto simp: reset_def bind_def)
  from place_inv [OF p assms(2)] have pi: "alive_inv p" by simp
  from update_map_inv [OF pi] obtain w2 where w2: "update_map p = Inr w2" "alive_inv w2"
    by blast
  have "w = update_position_state w2"
    using assms(1) p w2(1) by (simp add: reset_def bind_def)
  then show ?thesis using update_position_state_inv [OF w2(2)] by simp
qed

lemma reachable_alive_inv: "reachable w \<Longrightarrow> alive_inv w"
proof (induction rule: reachable.induct)
  case (reach_reset w0 shuffle w)
  then show ?case using reset_alive_inv by blast
next
  case (reach_update w joint_action w')
  then show ?case using update_alive_inv by blast
next
  case (reach_raise w joint_action e w')
  then show ?case using update_alive_inv by blast
qed

lemma alive_inv_nonneg: "alive_inv w \<Longrightarrow> 0 \<le> targets_alive w"
  by (simp add: alive_inv_def)

subsection \<open>Evaluation on the concrete worlds\<close>

lemma arange9: "arange 9 = [0, 1, 2, 3, 4, 5, 6, 7, 8]"
  by code_simp

lemma lift5_perm: "mset (lift5 (arange ((size_w w5_init - 2) * (size_w w5_init - 2))))
                     = mset (arange ((size_w w5_init - 2) * (size_w w5_init - 2)))"
  by (simp add: w5_init_def arange9 lift5_def)

lemma swap12_perm: "mset (swap12 (arange ((size_w w5_init - 2) * (size_w w5_init - 2))))
                     = mset (arange ((size_w w5_init - 2) * (size_w w5_init - 2)))"
  by (simp add: w5_init_def arange9 swap12_def)

lemma w5_init_valid:
  "2 \<le> size_w w5_init" "0 \<le> nb_agents w5_init" "0 \<le> nb_targets w5_init"
  "nb_agents w5_init + nb_targets w5_init \<le> (size_w w5_init - 2) * (size_w w5_init - 2)"
  by (simp_all add: w5_init_def)

lemma reset_w5_lift5: "reset w5_init lift5 = Inr w5_ready"
  by code_simp

lemma place_w5_swap12: "place w5_init swap12 = Inr w5_placed"
  by code_simp

lemma reset_w5_swap12: "reset w5_init swap12 = Inr w5_pincer"
  by code_simp

lemma update_w5_ready: "update w5_ready [(''agent_2'', LEFT)] = Inr w5_pincer"
  by code_simp

section \<open>Properties of reset and of an episode\<close>

text \<open>
  Below size 2 the bound \<open>(size - 2)\<^sup>2\<close> no longer counts the interior cells: a world of
  size 1 has none, yet \<open>1 \<le> (1 - 2)\<^sup>2\<close>, and \<open>reset\<close> raises \<open>IndexError\<close> when it looks for
  the cell of the one agent.
\<close>

lemma reset_size_1_raises:
  "World_init 1 1 0 0 = Inr w1_init
   \<and> nb_agents w1_init + nb_targets w1_init \<le> (size_w w1_init - 2) * (size_w w1_init - 2)
   \<and> reset w1_init id = Inl (IndexError, w1_init)"
  by code_simp

text \<open>
  C4: for a configuration with \<open>size \<ge> 2\<close>, non-negative counts, \<open>nb_agents + nb_targets
  \<le> (size - 2)\<^sup>2\<close> and a shuffle that permutes the index array, \<open>reset\<close> returns. Before the
  capture scan the grid holds exactly \<open>nb_agents\<close> agent cells and \<open>nb_targets\<close> target cells
  and \<open>targets_alive = nb_targets\<close>; after it the grid holds \<open>nb_agents\<close> agent cells and
  \<open>targets_alive \<le> nb_targets\<close> target cells. The positions of the agents and targets are
  pairwise distinct cells of the interior region, marked accordingly, and every cell of
  the border ring is empty.
\<close>

theorem reset_places_entities:
  assumes sz: "2 \<le> size_w w" and na: "0 \<le> nb_agents w" and nt: "0 \<le> nb_targets w"
    and fit: "nb_agents w + nb_targets w \<le> (size_w w - 2) * (size_w w - 2)"
    and perm: "mset (sh (arange ((size_w w - 2) * (size_w w - 2))))
                 = mset (arange ((size_w w - 2) * (size_w w - 2)))"
  shows "\<exists>p r. place w sh = Inr p \<and> reset w sh = Inr r
      \<and> targets_alive p = nb_targets w
      \<and> int (count_cells (size_w w) (map_w p) agent) = nb_agents w
      \<and> int (count_cells (size_w w) (map_w p) target) = nb_targets w
      \<and> int (count_cells (size_w w) (map_w r) agent) = nb_agents w
      \<and> int (count_cells (size_w w) (map_w r) target) = targets_alive r
      \<and> 0 \<le> targets_alive r \<and> targets_alive r \<le> nb_targets w
      \<and> agents r = agents p \<and> targets r = targets p
      \<and> int (length (agents r)) = nb_agents w \<and> int (length (targets r)) = nb_targets w
      \<and> distinct (map (position \<circ> snd) (agents r) @ targets r)
      \<and> (\<forall>q \<in> set (map (position \<circ> snd) (agents r) @ targets r). interior (size_w w) q)
      \<and> (\<forall>q \<in> set (map (position \<circ> snd) (agents r)).
            getitem (map_w p) q = Some agent \<and> getitem (map_w r) q = Some agent)
      \<and> (\<forall>q \<in> set (targets r). getitem (map_w p) q = Some target)
      \<and> (\<forall>q. in_grid (size_w w) q \<and> \<not> interior (size_w w) q \<longrightarrow>
            getitem (map_w p) q = Some empty_el \<and> getitem (map_w r) q = Some empty_el)"
proof -
  let ?sz = "size_w w"
  from reset_valid [where w = w and sh = sh, OF sz na nt fit perm] obtain aps tps m m' where
    p: "place w sh = Inr (w\<lparr>targets_alive := nb_targets w, map_w := m,
                                agents := make_agents aps, targets := tps\<rparr>)"
    and r: "reset w sh =
             Inr (w\<lparr>targets_alive :=
                       nb_targets w - int (length (filter (captured ?sz m) (pixels ?sz))),
                     map_w := m', agents := make_agents aps, targets := tps,
                     agent_position := Some (map (\<lambda>(k, v). (k, position v)) (make_agents aps))\<rparr>)"
    and la: "int (length aps) = nb_agents w" and lt: "int (length tps) = nb_targets w"
    and d: "distinct (aps @ tps)" and i: "\<forall>q \<in> set (aps @ tps). interior ?sz q"
    and wf: "wf_map ?sz m"
    and v: "\<forall>q. in_grid ?sz q \<longrightarrow>
                getitem m q = (if q \<in> set tps then Some target
                               else if q \<in> set aps then Some agent else Some empty_el)"
    and wf': "wf_map ?sz m'"
    and v': "\<forall>q. in_grid ?sz q \<longrightarrow>
                getitem m' q = (if captured ?sz m q then Some empty_el else getitem m q)"
    by blast
  let ?k = "length (filter (captured ?sz m) (pixels ?sz))"
  have ga: "\<forall>q \<in> set aps. in_grid ?sz q" and gt: "\<forall>q \<in> set tps. in_grid ?sz q"
    using i interior_in_grid by auto
  have dis: "\<And>q. q \<in> set aps \<Longrightarrow> q \<notin> set tps" using d by auto
  have ma: "\<And>q. in_grid ?sz q \<Longrightarrow> getitem m q = Some agent \<longleftrightarrow> q \<in> set aps"
    using v [rule_format] dis by (auto split: if_splits)
  have mt: "\<And>q. in_grid ?sz q \<Longrightarrow> getitem m q = Some target \<longleftrightarrow> q \<in> set tps"
    using v [rule_format] by (auto split: if_splits)
  have ma': "\<And>q. in_grid ?sz q \<Longrightarrow> getitem m' q = Some agent \<longleftrightarrow> q \<in> set aps"
  proof -
    fix q assume q: "in_grid ?sz q"
    have "getitem m' q = Some agent \<longleftrightarrow> getitem m q = Some agent"
      using v' [rule_format, OF q] by (auto simp: captured_def)
    then show "getitem m' q = Some agent \<longleftrightarrow> q \<in> set aps"
      using ma [OF q] by simp
  qed
  have ca: "int (count_cells ?sz m agent) = nb_agents w"
    using grid_cells_eq [OF ga ma] d la by (simp add: count_cells_card distinct_card)
  have ct: "int (count_cells ?sz m target) = nb_targets w"
    using grid_cells_eq [OF gt mt] d lt by (simp add: count_cells_card distinct_card)
  have ca': "int (count_cells ?sz m' agent) = nb_agents w"
    using grid_cells_eq [OF ga ma'] d la by (simp add: count_cells_card distinct_card)
  have split: "count_cells ?sz m' target + ?k = count_cells ?sz m target"
    unfolding count_cells_def
  proof (rule filter_length_split)
    fix q assume "q \<in> set (pixels ?sz)"
    then have "in_grid ?sz q" by (simp add: set_pixels)
    with v' [rule_format, of q]
    show "getitem m' q = Some target \<longleftrightarrow> getitem m q = Some target \<and> \<not> captured ?sz m q"
      by (simp split: if_splits)
  next
    fix q assume "captured ?sz m q"
    then show "getitem m q = Some target" by (simp add: captured_def)
  qed
  have ct': "int (count_cells ?sz m' target) = nb_targets w - int ?k"
    using split ct by linarith
  have nonneg: "0 \<le> nb_targets w - int ?k"
    using ct' by linarith
  have border: "\<forall>q. in_grid ?sz q \<and> \<not> interior ?sz q \<longrightarrow>
            getitem m q = Some empty_el \<and> getitem m' q = Some empty_el"
  proof (intro allI impI)
    fix q assume q: "in_grid ?sz q \<and> \<not> interior ?sz q"
    then have "q \<notin> set aps" "q \<notin> set tps" using i by auto
    then have "getitem m q = Some empty_el" using v [rule_format, of q] q by simp
    then show "getitem m q = Some empty_el \<and> getitem m' q = Some empty_el"
      using v' [rule_format, of q] q by (simp add: captured_def)
  qed
  show ?thesis
    using p r ca ct ca' ct' nonneg la lt d i ga gt ma ma' mt border
    by (intro exI [of _ "w\<lparr>targets_alive := nb_targets w, map_w := m,
                                agents := make_agents aps, targets := tps\<rparr>"]
              exI [of _ "w\<lparr>targets_alive := nb_targets w - int ?k,
                     map_w := m', agents := make_agents aps, targets := tps,
                     agent_position := Some (map (\<lambda>(k, v). (k, position v)) (make_agents aps))\<rparr>"])
       (simp add: make_agents_positions length_make_agents)
qed

theorem reset_places_entities_witness:
  "2 \<le> size_w w5_init \<and> 0 \<le> nb_agents w5_init \<and> 0 \<le> nb_targets w5_init
   \<and> nb_agents w5_init + nb_targets w5_init \<le> (size_w w5_init - 2) * (size_w w5_init - 2)
   \<and> mset (lift5 (arange ((size_w w5_init - 2) * (size_w w5_init - 2))))
       = mset (arange ((size_w w5_init - 2) * (size_w w5_init - 2)))
   \<and> reset w5_init lift5 = Inr w5_ready
   \<and> int (count_cells (size_w w5_init) (map_w w5_ready) agent) = nb_agents w5_init
   \<and> int (count_cells (size_w w5_init) (map_w w5_ready) target) = targets_alive w5_ready
   \<and> distinct (map (position \<circ> snd) (agents w5_ready) @ targets w5_ready)
   \<and> list_all (interior (size_w w5_init))
         (map (position \<circ> snd) (agents w5_ready) @ targets w5_ready)"
proof -
  from reset_places_entities [where w = w5_init and sh = lift5, OF w5_init_valid lift5_perm]
  obtain p r where
    r: "reset w5_init lift5 = Inr r"
       "int (count_cells (size_w w5_init) (map_w r) agent) = nb_agents w5_init"
       "int (count_cells (size_w w5_init) (map_w r) target) = targets_alive r"
       "distinct (map (position \<circ> snd) (agents r) @ targets r)"
       "\<forall>q \<in> set (map (position \<circ> snd) (agents r) @ targets r). interior (size_w w5_init) q"
    by blast
  have "r = w5_ready" using r(1) reset_w5_lift5 by simp
  then show ?thesis
    using r w5_init_valid lift5_perm by (simp add: list_all_iff)
qed

text \<open>
  C5: in every state reachable from \<open>reset\<close> by calls of \<open>update\<close>,
  \<open>0 \<le> targets_alive \<le> nb_targets\<close>; a call of \<open>update\<close> that returns never increases
  \<open>targets_alive\<close> and leaves it non-negative, and a call that raises leaves it unchanged.
\<close>

theorem targets_alive_bounded:
  assumes "reachable w"
  shows "0 \<le> targets_alive w \<and> targets_alive w \<le> nb_targets w
       \<and> (\<forall>ja w'. update w ja = Inr w' \<longrightarrow>
             targets_alive w' \<le> targets_alive w \<and> 0 \<le> targets_alive w')
       \<and> (\<forall>ja e w'. update w ja = Inl (e, w') \<longrightarrow> targets_alive w' = targets_alive w)"
proof -
  have inv: "alive_inv w" by (rule reachable_alive_inv [OF assms])
  have b: "0 \<le> targets_alive w" "targets_alive w \<le> nb_targets w"
    using inv alive_inv_nonneg [OF inv] by (simp_all add: alive_inv_def)
  have r: "\<forall>ja w'. update w ja = Inr w' \<longrightarrow>
             targets_alive w' \<le> targets_alive w \<and> 0 \<le> targets_alive w'"
    using update_alive_inv [OF inv] alive_inv_nonneg by blast
  have l: "\<forall>ja e w'. update w ja = Inl (e, w') \<longrightarrow> targets_alive w' = targets_alive w"
    using update_alive_inv [OF inv] by blast
  show ?thesis using b r l by blast
qed

theorem targets_alive_bounded_witness:
  "reachable w5_ready
   \<and> update w5_ready [(''agent_2'', LEFT)] = Inr w5_pincer
   \<and> 0 \<le> targets_alive w5_ready \<and> targets_alive w5_ready \<le> nb_targets w5_ready
   \<and> targets_alive w5_pincer \<le> targets_alive w5_ready \<and> 0 \<le> targets_alive w5_pincer"
proof -
  have nt: "0 \<le> nb_targets w5_init" by (simp add: w5_init_def)
  have r: "reachable w5_ready"
    by (rule reach_reset [OF nt reset_w5_lift5])
  from targets_alive_bounded [OF r] update_w5_ready r show ?thesis by blast
qed

subsection \<open>The seed\<close>

text \<open>
  \<open>reset\<close> does not read the field \<open>seed\<close>: on a world with another seed it does the same,
  and only carries the other seed along.
\<close>

lemma seed_map_commute: "w\<lparr>map_w := m\<rparr>\<lparr>seed := s\<rparr> = w\<lparr>seed := s\<rparr>\<lparr>map_w := m\<rparr>"
  by (cases w) simp

lemma mark_seed: "mark (w\<lparr>seed := s\<rparr>) ps v = with_seed s (mark w ps v)"
proof (induction ps arbitrary: w)
  case Nil
  then show ?case by (simp add: with_seed_def)
next
  case (Cons p ps)
  show ?case
  proof (cases "setitem (map_w w) p v")
    case None
    then show ?thesis by (simp add: with_seed_def)
  next
    case (Some m)
    have "mark (w\<lparr>seed := s\<rparr>) (p # ps) v = mark (w\<lparr>map_w := m\<rparr>\<lparr>seed := s\<rparr>) ps v"
      using Some by (simp add: seed_map_commute [symmetric] del: World.simps)
    also have "\<dots> = with_seed s (mark (w\<lparr>map_w := m\<rparr>) ps v)" by (rule Cons.IH)
    finally show ?thesis using Some by simp
  qed
qed

lemma capture_step_seed: "capture_step (w\<lparr>seed := s\<rparr>) sz p = with_seed s (capture_step w sz p)"
  by (simp add: capture_step_def with_seed_def split: option.splits)

lemma scan_seed: "scan (w\<lparr>seed := s\<rparr>) sz ps = with_seed s (scan w sz ps)"
proof (induction ps arbitrary: w)
  case Nil
  then show ?case by (simp add: with_seed_def)
next
  case (Cons p ps)
  show ?case
  proof (cases "capture_step w sz p")
    case (Inl ew)
    then show ?thesis by (simp add: capture_step_seed with_seed_def split: prod.splits)
  next
    case (Inr w1)
    then show ?thesis by (simp add: capture_step_seed with_seed_def Cons.IH)
  qed
qed

lemma update_map_seed: "update_map (w\<lparr>seed := s\<rparr>) = with_seed s (update_map w)"
  by (simp add: update_map_def scan_seed)

lemma place_seed: "place (w\<lparr>seed := s\<rparr>) sh = with_seed s (place w sh)"
proof (cases "zeros (size_w w)")
  case None
  then show ?thesis by (simp add: place_def with_seed_def)
next
  case z: (Some z)
  let ?pk = "pick (all_positions (size_w w)) (sh (arange ((size_w w - 2) * (size_w w - 2))))"
  show ?thesis
  proof (cases "collect ?pk [0..nb_agents w - 1]")
    case None
    then show ?thesis using z by (simp add: place_def with_seed_def)
  next
    case a: (Some aps)
    show ?thesis
    proof (cases "collect ?pk [nb_agents w..nb_agents w + nb_targets w - 1]")
      case None
      then show ?thesis using z a by (simp add: place_def with_seed_def)
    next
      case t: (Some tps)
      let ?w3 = "w\<lparr>targets_alive := nb_targets w, map_w := z,
                   agents := make_agents aps, targets := tps\<rparr>"
      have e: "w\<lparr>seed := s, targets_alive := nb_targets w, map_w := z,
                 agents := make_agents aps, targets := tps\<rparr> = ?w3\<lparr>seed := s\<rparr>"
        by (cases w) simp
      have l: "place (w\<lparr>seed := s\<rparr>) sh =
                 bind (mark (?w3\<lparr>seed := s\<rparr>) aps agent) (\<lambda>w4. mark w4 tps target)"
        using z a t by (simp add: place_def Let_def e)
      have r: "place w sh = bind (mark ?w3 aps agent) (\<lambda>w4. mark w4 tps target)"
        using z a t by (simp add: place_def Let_def)
      show ?thesis
      proof (cases "mark ?w3 aps agent")
        case (Inl ew)
        then show ?thesis
          unfolding l r by (simp add: mark_seed bind_def with_seed_def split: prod.splits)
      next
        case (Inr w4)
        then show ?thesis
          unfolding l r by (simp add: mark_seed bind_def with_seed_def)
      qed
    qed
  qed
qed

lemma update_position_state_seed:
  "update_position_state (w\<lparr>seed := s\<rparr>) = (update_position_state w)\<lparr>seed := s\<rparr>"
  by (cases w) (simp add: update_position_state_def)

lemma reset_seed: "reset (w\<lparr>seed := s\<rparr>) sh = with_seed s (reset w sh)"
proof (cases "place w sh")
  case (Inl ew)
  then show ?thesis
    by (simp add: reset_def place_seed bind_def with_seed_def split: prod.splits)
next
  case p: (Inr w5)
  show ?thesis
  proof (cases "update_map w5")
    case (Inl ew)
    then show ?thesis using p
      by (simp add: reset_def place_seed update_map_seed bind_def with_seed_def split: prod.splits)
  next
    case (Inr w6)
    then show ?thesis using p
      by (simp add: reset_def place_seed update_map_seed bind_def with_seed_def
          update_position_state_seed)
  qed
qed

text \<open>
  C7 fails on this code: \<open>reset\<close> never reads \<open>seed\<close>, and the placement follows the outcome
  of the shuffle alone. Two resets of the same world, hence with the same seed, whose
  shuffles come out differently place the agents differently.
\<close>

theorem reset_same_seed_two_placements:
  "reset w5_init lift5 = Inr w5_ready \<and> reset w5_init swap12 = Inr w5_pincer
   \<and> seed w5_ready = seed w5_init \<and> seed w5_pincer = seed w5_init
   \<and> agent_position w5_ready \<noteq> agent_position w5_pincer"
  by code_simp

text \<open>
  C8 fails: with the shuffle outcome \<open>swap12\<close> the target is placed at \<open>(2, 1)\<close> between the
  agents at \<open>(1, 1)\<close> and \<open>(3, 1)\<close>, and the scan inside \<open>reset\<close> captures it.
\<close>

theorem reset_scan_captures_placed_target:
  "place w5_init swap12 = Inr w5_placed \<and> reset w5_init swap12 = Inr w5_pincer
   \<and> getitem (map_w w5_placed) (2, 1) = Some target
   \<and> getitem (map_w w5_pincer) (2, 1) = Some empty_el
   \<and> targets_alive w5_placed = nb_targets w5_init
   \<and> targets_alive w5_pincer = nb_targets w5_init - 1"
  by code_simp

text \<open>
  C8, amended: for a valid configuration the scan that \<open>reset\<close> runs after placement
  captures exactly the placed targets with at least two orthogonal agent neighbours and
  decrements \<open>targets_alive\<close> once for each; it is a no-op exactly when there is no such
  target.
\<close>

theorem reset_scan_captures:
  assumes sz: "2 \<le> size_w w" and na: "0 \<le> nb_agents w" and nt: "0 \<le> nb_targets w"
    and fit: "nb_agents w + nb_targets w \<le> (size_w w - 2) * (size_w w - 2)"
    and perm: "mset (sh (arange ((size_w w - 2) * (size_w w - 2))))
                 = mset (arange ((size_w w - 2) * (size_w w - 2)))"
  shows "\<exists>p r. place w sh = Inr p \<and> reset w sh = Inr r
      \<and> targets_alive r =
          nb_targets w - int (card {q. in_grid (size_w w) q \<and> getitem (map_w p) q = Some target
                                       \<and> 2 \<le> orth_agents (size_w w) (map_w p) q})
      \<and> (\<forall>q. in_grid (size_w w) q \<longrightarrow>
            getitem (map_w r) q =
              (if getitem (map_w p) q = Some target \<and> 2 \<le> orth_agents (size_w w) (map_w p) q
               then Some empty_el else getitem (map_w p) q))
      \<and> (targets_alive r = nb_targets w \<longleftrightarrow>
           {q. in_grid (size_w w) q \<and> getitem (map_w p) q = Some target
               \<and> 2 \<le> orth_agents (size_w w) (map_w p) q} = {})"
proof -
  let ?sz = "size_w w"
  from reset_valid [where w = w and sh = sh, OF sz na nt fit perm] obtain aps tps m m' where
    p: "place w sh = Inr (w\<lparr>targets_alive := nb_targets w, map_w := m,
                                agents := make_agents aps, targets := tps\<rparr>)"
    and r: "reset w sh =
             Inr (w\<lparr>targets_alive :=
                       nb_targets w - int (length (filter (captured ?sz m) (pixels ?sz))),
                     map_w := m', agents := make_agents aps, targets := tps,
                     agent_position := Some (map (\<lambda>(k, v). (k, position v)) (make_agents aps))\<rparr>)"
    and v': "\<forall>q. in_grid ?sz q \<longrightarrow>
                getitem m' q = (if captured ?sz m q then Some empty_el else getitem m q)"
    by blast
  let ?C = "{q. in_grid ?sz q \<and> getitem m q = Some target \<and> 2 \<le> orth_agents ?sz m q}"
  have fin: "finite ?C"
    by (rule finite_subset [OF _ finite_grid [of ?sz]]) auto
  have z: "card ?C = 0 \<longleftrightarrow> ?C = {}" using fin by simp
  show ?thesis
    using p r v' z
    by (intro exI [of _ "w\<lparr>targets_alive := nb_targets w, map_w := m,
                                agents := make_agents aps, targets := tps\<rparr>"]
              exI [of _ "w\<lparr>targets_alive := nb_targets w - int (card ?C),
                     map_w := m', agents := make_agents aps, targets := tps,
                     agent_position := Some (map (\<lambda>(k, v). (k, position v)) (make_agents aps))\<rparr>"])
       (simp add: captured_count captured_def)
qed

theorem reset_scan_captures_witness:
  "2 \<le> size_w w5_init \<and> 0 \<le> nb_agents w5_init \<and> 0 \<le> nb_targets w5_init
   \<and> nb_agents w5_init + nb_targets w5_init \<le> (size_w w5_init - 2) * (size_w w5_init - 2)
   \<and> mset (swap12 (arange ((size_w w5_init - 2) * (size_w w5_init - 2))))
       = mset (arange ((size_w w5_init - 2) * (size_w w5_init - 2)))
   \<and> place w5_init swap12 = Inr w5_placed \<and> reset w5_init swap12 = Inr w5_pincer
   \<and> targets_alive w5_pincer =
        nb_targets w5_init
          - int (card {q. in_grid (size_w w5_init) q \<and> getitem (map_w w5_placed) q = Some target
                          \<and> 2 \<le> orth_agents (size_w w5_init) (map_w w5_placed) q})
   \<and> {q. in_grid (size_w w5_init) q \<and> getitem (map_w w5_placed) q = Some target
           \<and> 2 \<le> orth_agents (size_w w5_init) (map_w w5_placed) q} \<noteq> {}"
proof -
  from reset_scan_captures [where w = w5_init and sh = swap12, OF w5_init_valid swap12_perm]
  obtain p r where
    r: "place w5_init swap12 = Inr p" "reset w5_init swap12 = Inr r"
       "targets_alive r =
          nb_targets w5_init
            - int (card {q. in_grid (size_w w5_init) q \<and> getitem (map_w p) q = Some target
                            \<and> 2 \<le> orth_agents (size_w w5_init) (map_w p) q})"
       "targets_alive r = nb_targets w5_init \<longleftrightarrow>
           {q. in_grid (size_w w5_init) q \<and> getitem (map_w p) q = Some target
               \<and> 2 \<le> orth_agents (size_w w5_init) (map_w p) q} = {}"
    by blast
  have p: "p = w5_placed" and r': "r = w5_pincer"
    using r(1,2) place_w5_swap12 reset_w5_swap12 by simp_all
  have "targets_alive w5_pincer \<noteq> nb_targets w5_init"
    by (simp add: w5_pincer_def w5_init_def)
  then show ?thesis
    using r p r' w5_init_valid swap12_perm by simp
qed

end
